theory Spec2Isabelle
  imports Complex_Main
begin

section \<open>The element type and its arithmetic\<close>

text \<open>
  The three operators of \<^verbatim>\<open>manifold_operators.cpp\<close> compute on \<^verbatim>\<open>float\<close>. They use
  the constants \<^verbatim>\<open>0.0f\<close>, \<^verbatim>\<open>1.0f\<close> and \<^verbatim>\<open>1e-9f\<close>, the operators \<^verbatim>\<open>+ - * /\<close> and \<^verbatim>\<open><\<close>
  (inside \<^verbatim>\<open>std::min\<close>), \<^verbatim>\<open>std::sqrt\<close>, \<^verbatim>\<open>std::abs\<close> and the conversion of a
  \<^verbatim>\<open>size_t\<close> to \<^verbatim>\<open>float\<close>. The operators are written once, over any element type
  \<open>'f\<close> with these operations; the record below carries them. Two arithmetics are
  given further down: \<open>exact\<close>, the real numbers of the specification's data model, and
  \<open>binary32\<close>, the IEEE 754 arithmetic of \<^verbatim>\<open>float\<close>.
\<close>

record 'f arith =
  fzero :: 'f
  fone :: 'f
  feps :: 'f
  fadd :: "'f \<Rightarrow> 'f \<Rightarrow> 'f"
  fsub :: "'f \<Rightarrow> 'f \<Rightarrow> 'f"
  fmul :: "'f \<Rightarrow> 'f \<Rightarrow> 'f"
  fdiv :: "'f \<Rightarrow> 'f \<Rightarrow> 'f"
  fsqrt :: "'f \<Rightarrow> 'f"
  fabs :: "'f \<Rightarrow> 'f"
  fless :: "'f \<Rightarrow> 'f \<Rightarrow> bool"
  of_size :: "nat \<Rightarrow> 'f"

text \<open>
  \<^verbatim>\<open>std::min(a, b)\<close> is \<^verbatim>\<open>(b < a) ? b : a\<close>.
\<close>

definition std_min :: "'f arith \<Rightarrow> 'f \<Rightarrow> 'f \<Rightarrow> 'f" where
  "std_min A a b = (if fless A b a then b else a)"

section \<open>Operator 7: resonance\<close>

text \<open>
  The loop \<^verbatim>\<open>for (size_t i = 0; i < input_embedding.size(); ++i)\<close> with its three
  accumulators \<^verbatim>\<open>dot_product\<close>, \<^verbatim>\<open>norm_a\<close>, \<^verbatim>\<open>norm_b\<close>. It is entered only when both
  vectors have the same size, so \<open>manifold_centroid ! i\<close> is in range there.
\<close>

function resonance_loop ::
  "'f arith \<Rightarrow> 'f list \<Rightarrow> 'f list \<Rightarrow> nat \<Rightarrow> 'f \<times> 'f \<times> 'f \<Rightarrow> 'f \<times> 'f \<times> 'f" where
  "resonance_loop A input_embedding manifold_centroid i (dot_product, norm_a, norm_b) =
     (if i < length input_embedding then
        resonance_loop A input_embedding manifold_centroid (Suc i)
          (fadd A dot_product (fmul A (input_embedding ! i) (manifold_centroid ! i)),
           fadd A norm_a (fmul A (input_embedding ! i) (input_embedding ! i)),
           fadd A norm_b (fmul A (manifold_centroid ! i) (manifold_centroid ! i)))
      else (dot_product, norm_a, norm_b))"
  by pat_completeness auto
termination
  by (relation "measure (\<lambda>(A, a, b, i, acc). length a - i)") auto

declare resonance_loop.simps [simp del]

definition calculate_resonance :: "'f arith \<Rightarrow> 'f list \<Rightarrow> 'f list \<Rightarrow> 'f" where
  "calculate_resonance A input_embedding manifold_centroid =
     (if length input_embedding \<noteq> length manifold_centroid \<or> input_embedding = [] then fzero A
      else
        (case resonance_loop A input_embedding manifold_centroid 0 (fzero A, fzero A, fzero A) of
           (dot_product, norm_a, norm_b) \<Rightarrow>
             fdiv A dot_product (fadd A (fmul A (fsqrt A norm_a) (fsqrt A norm_b)) (feps A))))"

section \<open>Operator 11: coherence\<close>

text \<open>
  The range-based loop \<^verbatim>\<open>for (float val : embedding) sum += std::abs(val);\<close>
  (the accumulator \<^verbatim>\<open>sum\<close> is named \<open>sum_abs\<close> here, \<open>sum\<close> being a constant of HOL).
\<close>

fun coherence_loop :: "'f arith \<Rightarrow> 'f list \<Rightarrow> 'f \<Rightarrow> 'f" where
  "coherence_loop A [] sum_abs = sum_abs"
| "coherence_loop A (val # rest) sum_abs = coherence_loop A rest (fadd A sum_abs (fabs A val))"

definition calculate_coherence :: "'f arith \<Rightarrow> 'f list \<Rightarrow> 'f" where
  "calculate_coherence A embedding =
     (if embedding = [] then fzero A
      else
        (let sum_abs = coherence_loop A embedding (fzero A);
             score = fdiv A sum_abs (of_size A (length embedding))
         in std_min A (fone A) score))"

section \<open>Identity stability metric\<close>

text \<open>
  The loop \<^verbatim>\<open>for (size_t i = 1; i < history_resonance.size(); ++i)\<close>. Every index it
  reads, \<open>i\<close> and \<open>i - 1\<close>, is in range.
\<close>

function delta_loop :: "'f arith \<Rightarrow> 'f list \<Rightarrow> nat \<Rightarrow> 'f \<Rightarrow> 'f" where
  "delta_loop A history_resonance i sum_diff =
     (if i < length history_resonance then
        delta_loop A history_resonance (Suc i)
          (fadd A sum_diff
             (fabs A (fsub A (history_resonance ! i) (history_resonance ! (i - 1)))))
      else sum_diff)"
  by pat_completeness auto
termination
  by (relation "measure (\<lambda>(A, h, i, s). length h - i)") auto

declare delta_loop.simps [simp del]

definition calculate_delta_i :: "'f arith \<Rightarrow> 'f list \<Rightarrow> 'f" where
  "calculate_delta_i A history_resonance =
     (if length history_resonance < 2 then fone A
      else
        fsub A (fone A)
          (fdiv A (delta_loop A history_resonance 1 (fzero A))
             (of_size A (length history_resonance - 1))))"

section \<open>The boundary entry point of resonance\<close>

text \<open>
  \<^verbatim>\<open>Java_com_manifold_app_NativeLib_operator7Resonance\<close> receives two Java arrays. A
  Java array is modelled as the list of its elements; \<^verbatim>\<open>GetFloatArrayElements\<close> gives
  a buffer of exactly that many elements. The constructor
  \<^verbatim>\<open>std::vector<float>(p, p + len)\<close> reads \<^verbatim>\<open>len\<close> elements from the buffer; reading
  past the end of the buffer is undefined behaviour in C++, which the model reports as
  an error value.
\<close>

datatype error = OutOfRange

definition vector_from_range :: "'f list \<Rightarrow> nat \<Rightarrow> error + 'f list" where
  "vector_from_range buf len = (if len \<le> length buf then Inr (take len buf) else Inl OutOfRange)"

definition operator7Resonance :: "'f arith \<Rightarrow> 'f list \<Rightarrow> 'f list \<Rightarrow> error + 'f" where
  "operator7Resonance A j_embedding j_centroid =
     (let len = length j_embedding in
      case vector_from_range j_embedding len of
        Inl e \<Rightarrow> Inl e
      | Inr input_vec \<Rightarrow>
          (case vector_from_range j_centroid len of
             Inl e \<Rightarrow> Inl e
           | Inr centroid_vec \<Rightarrow> Inr (calculate_resonance A input_vec centroid_vec)))"

section \<open>Exact arithmetic\<close>

text \<open>
  The specification describes vectors as sequences of real numbers and each result as a
  real number. \<open>exact\<close> is the arithmetic of the reals: every operation is the
  mathematical one, without the rounding, overflow and special values of \<^verbatim>\<open>float\<close>.
\<close>

definition exact :: "real arith" where
  "exact = \<lparr>fzero = 0, fone = 1, feps = 1 / 10 ^ 9,
            fadd = (+), fsub = (-), fmul = (*), fdiv = (/),
            fsqrt = sqrt, fabs = abs, fless = (<), of_size = real\<rparr>"


section \<open>The arithmetic of \<^verbatim>\<open>float\<close>\<close>

text \<open>
  \<^verbatim>\<open>float\<close> (the \<^verbatim>\<open>jfloat\<close> the entry points return) is the IEEE 754 binary32 format:
  a sign bit, 8 exponent bits and 23 fraction bits. A datum is modelled by its sign bit
  and the number \<open>mag_bits\<close> that its other 31 bits spell: below \<open>0x7F800000\<close> it is
  finite (below \<open>2^23\<close> zero or subnormal), \<open>0x7F800000\<close> is an infinity, and everything
  above is a NaN. The payload of a NaN is not tracked: every operation that produces a
  NaN produces \<open>qnan\<close>, where the program produces a NaN whose sign and payload depend on
  the operands and their order. What is stated of a result that may be a NaN is
  therefore stated with \<open>is_nan\<close> and the comparisons of \<^verbatim>\<open>float\<close>, not with the equality
  of two NaNs. Each operation of the source is one operation here, rounded on
  its own to the nearest \<^verbatim>\<open>float\<close> (ties to even, the default mode); a compiler that
  fuses \<^verbatim>\<open>a * b + c\<close> into one rounding is outside the model.
\<close>

datatype float32 = Float32 (sign_bit: bool) (mag_bits: nat)

definition inf_bits :: nat where
  "inf_bits = 255 * 2 ^ 23"

definition is_nan :: "float32 \<Rightarrow> bool" where
  "is_nan x \<longleftrightarrow> inf_bits < mag_bits x"

definition is_inf :: "float32 \<Rightarrow> bool" where
  "is_inf x \<longleftrightarrow> mag_bits x = inf_bits"

definition is_finite :: "float32 \<Rightarrow> bool" where
  "is_finite x \<longleftrightarrow> mag_bits x < inf_bits"

definition is_zero :: "float32 \<Rightarrow> bool" where
  "is_zero x \<longleftrightarrow> mag_bits x = 0"

definition qnan :: float32 where
  "qnan = Float32 False (inf_bits + 2 ^ 22)"

text \<open>
  The magnitude that 31 bits \<open>k\<close> stand for: with \<open>e = k div 2^23\<close> and
  \<open>f = k mod 2^23\<close> it is \<open>f * 2^-149\<close> when \<open>e = 0\<close> and
  \<open>(2^23 + f) * 2^(e - 150)\<close> otherwise. The same formula gives \<open>2^128\<close> for the bits
  of an infinity, which orders the infinities beyond every finite value.
\<close>

definition mag :: "nat \<Rightarrow> real" where
  "mag k =
     real (if k < 2 ^ 23 then k else 2 ^ 23 + k mod 2 ^ 23) * 2 ^ (max 1 (k div 2 ^ 23) - 1)
       / 2 ^ 149"

definition valof :: "float32 \<Rightarrow> real" where
  "valof x = (if sign_bit x then - mag (mag_bits x) else mag (mag_bits x))"

text \<open>
  Rounding to nearest, ties to even, of a magnitude \<open>x \<ge> 0\<close>. \<open>X\<close> is \<open>x\<close> in units of
  \<open>2^-149\<close>, \<open>expo X\<close> the exponent field of the result before rounding and \<open>rne\<close> the
  rounding of the scaled significand to an integer. A significand that rounds up to
  \<open>2^24\<close> carries into the next exponent, and from the largest exponent into the bits
  of infinity.
\<close>

definition ilog2 :: "real \<Rightarrow> nat" where
  "ilog2 X = nat \<lfloor>log 2 X\<rfloor>"

definition expo :: "real \<Rightarrow> nat" where
  "expo X = (if X < 2 ^ 23 then 1 else ilog2 X - 22)"

definition rne :: "real \<Rightarrow> nat" where
  "rne q =
     (let n = nat \<lfloor>q\<rfloor>; r = q - real n in
      if r < 1 / 2 then n else if 1 / 2 < r then n + 1 else if even n then n else n + 1)"

definition round_mag :: "real \<Rightarrow> nat" where
  "round_mag x =
     (if 2 ^ 128 \<le> x then inf_bits
      else (let X = x * 2 ^ 149; e = expo X in (e - 1) * 2 ^ 23 + rne (X / 2 ^ (e - 1))))"

definition round32 :: "real \<Rightarrow> float32" where
  "round32 x = Float32 (x < 0) (round_mag \<bar>x\<bar>)"

text \<open>
  The operations of IEEE 754 in the default rounding mode. A sum that is exactly zero
  is \<open>-0\<close> only when both operands are negative (zeros); products and quotients carry
  the exclusive or of the signs.
\<close>

definition f32_add :: "float32 \<Rightarrow> float32 \<Rightarrow> float32" where
  "f32_add a b =
     (if is_nan a \<or> is_nan b then qnan
      else if is_inf a then (if is_inf b \<and> sign_bit a \<noteq> sign_bit b then qnan else a)
      else if is_inf b then b
      else (let x = valof a + valof b in
            if x = 0 then Float32 (sign_bit a \<and> sign_bit b) 0 else round32 x))"

definition f32_neg :: "float32 \<Rightarrow> float32" where
  "f32_neg a = Float32 (\<not> sign_bit a) (mag_bits a)"

definition f32_sub :: "float32 \<Rightarrow> float32 \<Rightarrow> float32" where
  "f32_sub a b = f32_add a (f32_neg b)"

definition f32_mul :: "float32 \<Rightarrow> float32 \<Rightarrow> float32" where
  "f32_mul a b =
     (if is_nan a \<or> is_nan b then qnan
      else if (is_inf a \<and> is_zero b) \<or> (is_zero a \<and> is_inf b) then qnan
      else if is_inf a \<or> is_inf b then Float32 (sign_bit a \<noteq> sign_bit b) inf_bits
      else Float32 (sign_bit a \<noteq> sign_bit b) (round_mag (mag (mag_bits a) * mag (mag_bits b))))"

definition f32_div :: "float32 \<Rightarrow> float32 \<Rightarrow> float32" where
  "f32_div a b =
     (if is_nan a \<or> is_nan b then qnan
      else if (is_inf a \<and> is_inf b) \<or> (is_zero a \<and> is_zero b) then qnan
      else if is_inf a \<or> is_zero b then Float32 (sign_bit a \<noteq> sign_bit b) inf_bits
      else if is_inf b then Float32 (sign_bit a \<noteq> sign_bit b) 0
      else Float32 (sign_bit a \<noteq> sign_bit b) (round_mag (mag (mag_bits a) / mag (mag_bits b))))"

definition f32_sqrt :: "float32 \<Rightarrow> float32" where
  "f32_sqrt a =
     (if is_nan a then qnan
      else if is_zero a then a
      else if sign_bit a then qnan
      else if is_inf a then a
      else Float32 False (round_mag (sqrt (mag (mag_bits a)))))"

definition f32_abs :: "float32 \<Rightarrow> float32" where
  "f32_abs a = Float32 False (mag_bits a)"

text \<open>The comparison \<^verbatim>\<open><\<close> is false as soon as one operand is a NaN.\<close>

definition f32_less :: "float32 \<Rightarrow> float32 \<Rightarrow> bool" where
  "f32_less a b \<longleftrightarrow> \<not> is_nan a \<and> \<not> is_nan b \<and> valof a < valof b"

text \<open>
  The comparison \<^verbatim>\<open>==\<close>, with which the specification tests two results for equality:
  it is false as soon as one operand is a NaN (a NaN is not equal to itself), and true
  of \<open>+0\<close> and \<open>-0\<close>.
\<close>

definition f32_eq :: "float32 \<Rightarrow> float32 \<Rightarrow> bool" where
  "f32_eq a b \<longleftrightarrow> \<not> is_nan a \<and> \<not> is_nan b \<and> valof a = valof b"

text \<open>The conversion of a \<^verbatim>\<open>size_t\<close> to \<^verbatim>\<open>float\<close>, rounding to nearest.\<close>

definition f32_of_size :: "nat \<Rightarrow> float32" where
  "f32_of_size n = round32 (real n)"

text \<open>
  The constants are \<^verbatim>\<open>0.0f\<close>, \<^verbatim>\<open>1.0f\<close> (bits \<open>0x3F800000\<close>) and \<^verbatim>\<open>1e-9f\<close>, the \<^verbatim>\<open>float\<close>
  nearest to the decimal \<open>1e-9\<close>.
\<close>

definition binary32 :: "float32 arith" where
  "binary32 = \<lparr>fzero = Float32 False 0, fone = Float32 False (127 * 2 ^ 23),
               feps = round32 (1 / 10 ^ 9),
               fadd = f32_add, fsub = f32_sub, fmul = f32_mul, fdiv = f32_div,
               fsqrt = f32_sqrt, fabs = f32_abs, fless = f32_less, of_size = f32_of_size\<rparr>"

section \<open>The formulas of the specification\<close>

text \<open>
  The dot product, the norm, the mean absolute value and the mean absolute successive
  difference in the words of the specification, in the arithmetic \<open>A\<close>: sums run from
  the first index to the last.
\<close>

definition dot :: "'f arith \<Rightarrow> 'f list \<Rightarrow> 'f list \<Rightarrow> 'f" where
  "dot A a b = foldl (fadd A) (fzero A) (map2 (fmul A) a b)"

definition vec_norm :: "'f arith \<Rightarrow> 'f list \<Rightarrow> 'f" where
  "vec_norm A a = fsqrt A (dot A a a)"

definition mean_abs :: "'f arith \<Rightarrow> 'f list \<Rightarrow> 'f" where
  "mean_abs A v = fdiv A (foldl (fadd A) (fzero A) (map (fabs A) v)) (of_size A (length v))"

definition mean_abs_diff :: "'f arith \<Rightarrow> 'f list \<Rightarrow> 'f" where
  "mean_abs_diff A h =
     fdiv A
       (foldl (fadd A) (fzero A) (map (\<lambda>i. fabs A (fsub A (h ! i) (h ! (i - 1)))) [1..<length h]))
       (of_size A (length h - 1))"

section \<open>The loops compute the formulas\<close>

text \<open>In any arithmetic, each loop is the left-to-right sum of the formula it stands for.\<close>

lemma resonance_loop_fold:
  assumes "length a = length b" "i \<le> length a"
  shows "resonance_loop A a b i (d, na, nb) =
     (foldl (fadd A) d (map2 (fmul A) (drop i a) (drop i b)),
      foldl (fadd A) na (map2 (fmul A) (drop i a) (drop i a)),
      foldl (fadd A) nb (map2 (fmul A) (drop i b) (drop i b)))"
  using assms
proof (induction A a b i "(d, na, nb)" arbitrary: d na nb rule: resonance_loop.induct)
  case (1 A a b i d na nb)
  show ?case
  proof (cases "i < length a")
    case True
    then have a: "drop i a = a ! i # drop (Suc i) a" and b: "drop i b = b ! i # drop (Suc i) b"
      using "1.prems" by (simp_all add: Cons_nth_drop_Suc)
    show ?thesis
      using True "1.prems" "1.hyps"
      by (subst resonance_loop.simps) (simp add: a b)
  next
    case False
    then show ?thesis
      using "1.prems" by (subst resonance_loop.simps) simp
  qed
qed

lemma calculate_resonance_fold:
  assumes "length a = length b" "a \<noteq> []"
  shows "calculate_resonance A a b =
     fdiv A (dot A a b) (fadd A (fmul A (vec_norm A a) (vec_norm A b)) (feps A))"
  using assms by (simp add: calculate_resonance_def resonance_loop_fold dot_def vec_norm_def)

lemma coherence_loop_fold: "coherence_loop A v s = foldl (fadd A) s (map (fabs A) v)"
  by (induction v arbitrary: s) simp_all

lemma calculate_coherence_fold:
  "calculate_coherence A v = (if v = [] then fzero A else std_min A (fone A) (mean_abs A v))"
  by (simp add: calculate_coherence_def coherence_loop_fold mean_abs_def)

lemma delta_loop_fold:
  "i \<le> length h \<Longrightarrow>
   delta_loop A h i s =
     foldl (fadd A) s (map (\<lambda>i. fabs A (fsub A (h ! i) (h ! (i - 1)))) [i..<length h])"
proof (induction A h i s rule: delta_loop.induct)
  case (1 A h i s)
  show ?case
  proof (cases "i < length h")
    case True
    then show ?thesis
      using "1.IH"[OF True] by (subst delta_loop.simps) (simp add: upt_conv_Cons)
  next
    case False
    then show ?thesis
      using "1.prems" by (subst delta_loop.simps) simp
  qed
qed

lemma calculate_delta_i_fold:
  "calculate_delta_i A h =
     (if length h < 2 then fone A else fsub A (fone A) (mean_abs_diff A h))"
  by (simp add: calculate_delta_i_def delta_loop_fold mean_abs_diff_def)

section \<open>The formulas in exact arithmetic\<close>

lemma exact_simps [simp]:
  "fzero exact = 0" "fone exact = 1" "feps exact = 1 / 10 ^ 9"
  "fadd exact = (+)" "fsub exact = (-)" "fmul exact = (*)" "fdiv exact = (/)"
  "fsqrt exact = sqrt" "fabs exact = abs" "fless exact = (<)" "of_size exact = real"
  by (simp_all add: exact_def)

lemma foldl_plus_real: "foldl (+) s xs = s + sum_list xs" for s :: real
  by (induction xs arbitrary: s) simp_all

lemma dot_exact:
  assumes "length a = length b"
  shows "dot exact a b = (\<Sum>i<length a. a ! i * b ! i)"
proof -
  have "sum_list (map2 (*) a b) = (\<Sum>i = 0..<length a. map2 (*) a b ! i)"
    using assms by (simp add: sum_list_sum_nth)
  also have "\<dots> = (\<Sum>i = 0..<length a. a ! i * b ! i)"
    using assms by (intro sum.cong) simp_all
  finally show ?thesis
    by (simp add: dot_def foldl_plus_real atLeast0LessThan)
qed

lemma vec_norm_exact: "vec_norm exact a = sqrt (\<Sum>i<length a. (a ! i)\<^sup>2)"
  by (simp add: vec_norm_def dot_exact power2_eq_square)

lemma mean_abs_exact: "mean_abs exact v = (\<Sum>x\<leftarrow>v. \<bar>x\<bar>) / real (length v)"
  by (simp add: mean_abs_def foldl_plus_real)

lemma mean_abs_diff_exact:
  "mean_abs_diff exact h = (\<Sum>i = 1..<length h. \<bar>h ! i - h ! (i - 1)\<bar>) / real (length h - 1)"
  by (simp add: mean_abs_diff_def foldl_plus_real interv_sum_list_conv_sum_set_nat)

lemma calculate_resonance_exact:
  assumes "length a = length b" "a \<noteq> []"
  shows "calculate_resonance exact a b =
     (\<Sum>i<length a. a ! i * b ! i) /
       (sqrt (\<Sum>i<length a. (a ! i)\<^sup>2) * sqrt (\<Sum>i<length b. (b ! i)\<^sup>2) + 1 / 10 ^ 9)"
  using assms by (simp add: calculate_resonance_fold dot_exact vec_norm_exact)

lemma sum_list_abs_nonneg: "0 \<le> (\<Sum>x\<leftarrow>v. \<bar>x :: real\<bar>)"
  by (induction v) simp_all

lemma delta_sum_nonneg: "0 \<le> (\<Sum>k = i..<n. \<bar>h ! k - h ! (k - 1) :: real\<bar>)"
  by (rule sum_nonneg) simp

lemma delta_sum_zero_iff:
  "(\<Sum>k = 1..<n. \<bar>h ! k - h ! (k - 1) :: real\<bar>) = 0 \<longleftrightarrow>
   (\<forall>i. 1 \<le> i \<and> i < n \<longrightarrow> h ! i = h ! (i - 1))"
  by (subst sum_nonneg_eq_0_iff) auto

subsection \<open>The Cauchy-Schwarz inequality for finite sums\<close>

lemma cauchy_schwarz_two:
  "a * c + b * d \<le> sqrt (a\<^sup>2 + b\<^sup>2) * sqrt (c\<^sup>2 + d\<^sup>2)" for a b c d :: real
proof -
  have "(a * c + b * d)\<^sup>2 + (a * d - b * c)\<^sup>2 = (a\<^sup>2 + b\<^sup>2) * (c\<^sup>2 + d\<^sup>2)"
    by (simp add: power2_eq_square algebra_simps)
  then have "(a * c + b * d)\<^sup>2 \<le> (a\<^sup>2 + b\<^sup>2) * (c\<^sup>2 + d\<^sup>2)"
    by (metis le_add_same_cancel1 zero_le_power2)
  then have "a * c + b * d \<le> sqrt ((a\<^sup>2 + b\<^sup>2) * (c\<^sup>2 + d\<^sup>2))"
    by (rule real_le_rsqrt)
  then show ?thesis
    by (simp add: real_sqrt_mult)
qed

lemma cauchy_schwarz_sum:
  "\<bar>\<Sum>i<n. f i * g i\<bar> \<le> sqrt (\<Sum>i<n. (f i)\<^sup>2) * sqrt (\<Sum>i<n. (g i :: real)\<^sup>2)"
  for n :: nat
proof (induction n)
  case 0
  show ?case by simp
next
  case (Suc n)
  let ?P = "\<Sum>i<n. (f i)\<^sup>2" and ?Q = "\<Sum>i<n. (g i)\<^sup>2"
  have P: "0 \<le> ?P" and Q: "0 \<le> ?Q"
    by (simp_all add: sum_nonneg)
  have "\<bar>\<Sum>i<Suc n. f i * g i\<bar> \<le> \<bar>\<Sum>i<n. f i * g i\<bar> + \<bar>f n\<bar> * \<bar>g n\<bar>"
    by (simp add: abs_mult[symmetric] abs_triangle_ineq)
  also have "\<dots> \<le> sqrt ?P * sqrt ?Q + \<bar>f n\<bar> * \<bar>g n\<bar>"
    using Suc.IH by simp
  also have "\<dots> \<le> sqrt ((sqrt ?P)\<^sup>2 + \<bar>f n\<bar>\<^sup>2) * sqrt ((sqrt ?Q)\<^sup>2 + \<bar>g n\<bar>\<^sup>2)"
    by (rule cauchy_schwarz_two)
  also have "\<dots> = sqrt (\<Sum>i<Suc n. (f i)\<^sup>2) * sqrt (\<Sum>i<Suc n. (g i)\<^sup>2)"
    using P Q by simp
  finally show ?case .
qed

section \<open>Rounding\<close>

lemma ilog2_bounds:
  assumes "2 ^ k \<le> X"
  shows "k \<le> ilog2 X" "2 ^ ilog2 X \<le> X" "X < 2 ^ (ilog2 X + 1)"
proof -
  define n where "n = \<lfloor>log 2 X\<rfloor>"
  have X: "0 < X" using assms by (smt (verit) zero_less_power)
  have "2 powr (real k) \<le> X" using assms by (simp add: powr_realpow)
  then have "real k \<le> log 2 X" using X by (simp add: le_log_iff)
  then have kn: "int k \<le> n" unfolding n_def by linarith
  then have n0: "0 \<le> n" by linarith
  have b: "2 powr n \<le> X \<and> X < 2 powr (n + 1)"
    using floor_log_eq_powr_iff[of X 2 n] X by (simp add: n_def)
  have p1: "(2::real) powr n = 2 ^ (nat n)" using n0 by (simp add: powr_real_of_int)
  have "(2::real) powr (of_int (n + 1)) = 2 ^ (nat (n + 1))" using n0 by (subst powr_real_of_int) auto
  then have p2: "(2::real) powr (n + 1) = 2 ^ (nat n + 1)" using n0 by (simp add: nat_add_distrib)
  show "k \<le> ilog2 X" using kn by (simp add: ilog2_def n_def)
  show "2 ^ ilog2 X \<le> X" using b p1 by (simp add: ilog2_def n_def)
  show "X < 2 ^ (ilog2 X + 1)" using b p2 by (simp add: ilog2_def n_def)
qed

lemma ilog2_eqI:
  assumes "2 ^ n \<le> X" "X < 2 ^ (n + 1)"
  shows "ilog2 X = n"
proof -
  have X: "0 < X" using assms by (smt (verit) zero_less_power)
  have a: "(2::real) powr (of_int (int n)) = 2 ^ n" by (simp add: powr_realpow)
  have b: "(2::real) powr (of_int (int n + 1)) = 2 ^ (n + 1)"
    using powr_realpow[of 2 "n + 1"] by (simp add: add.commute)
  have "\<lfloor>log 2 X\<rfloor> = int n"
    using X assms floor_log_eq_powr_iff[of X 2 "int n"] unfolding a b by simp
  then show ?thesis by (simp add: ilog2_def)
qed

lemma expo_ge1: "1 \<le> expo X"
  using ilog2_bounds(1)[of 23 X] by (simp only: expo_def split: if_splits) linarith

lemma expo_normal:
  assumes "2 ^ 23 \<le> X"
  shows "2 ^ (expo X + 22) \<le> X" "X < 2 ^ (expo X + 23)"
proof -
  have e: "expo X = ilog2 X - 22" using assms by (simp only: expo_def) auto
  have "23 \<le> ilog2 X" using assms by (rule ilog2_bounds)
  then have "expo X + 22 = ilog2 X" "expo X + 23 = ilog2 X + 1"
    using e by simp_all
  then show "2 ^ (expo X + 22) \<le> X" "X < 2 ^ (expo X + 23)"
    using ilog2_bounds(2,3)[OF assms] by (simp_all only:)
qed

lemma expo_eqI:
  assumes "1 \<le> e" "2 ^ (e + 22) \<le> X" "X < 2 ^ (e + 23)"
  shows "expo X = e"
proof -
  have "(2::real) ^ 23 \<le> 2 ^ (e + 22)" by (rule power_increasing) (use assms in auto)
  then have X23: "\<not> X < 2 ^ 23" using assms by linarith
  have "ilog2 X = e + 22" using assms by (intro ilog2_eqI) (simp_all only: add.assoc, simp_all)
  then show ?thesis using X23 by (simp only: expo_def) simp
qed

lemma expo_subnormal: "X < 2 ^ 23 \<Longrightarrow> expo X = 1"
  by (simp only: expo_def if_True)

lemma rne_of_nat [simp]: "rne (real n) = n"
  by (simp add: rne_def)

lemma rne_le:
  assumes "0 \<le> q" "q \<le> real N"
  shows "rne q \<le> N"
proof -
  define n where "n = nat \<lfloor>q\<rfloor>"
  have n: "real n \<le> q" "q < real n + 1" using assms(1) unfolding n_def by linarith+
  show ?thesis
  proof (cases "n < N")
    case True
    then show ?thesis by (simp add: rne_def Let_def n_def[symmetric])
  next
    case False
    with n assms have "q = real n" "n = N" by linarith+
    then show ?thesis by simp
  qed
qed

lemma rne_ge:
  assumes "real N \<le> q"
  shows "N \<le> rne q"
proof -
  have "int N \<le> \<lfloor>q\<rfloor>" using assms by linarith
  then have "N \<le> nat \<lfloor>q\<rfloor>" by linarith
  then show ?thesis by (simp add: rne_def Let_def)
qed

lemma mag_compose:
  assumes "1 \<le> e" "m \<le> 2 ^ 24" "1 < e \<longrightarrow> 2 ^ 23 \<le> m"
  shows "mag ((e - 1) * 2 ^ 23 + m) = real m * 2 ^ (e - 1) / 2 ^ 149"
proof (cases "m < 2 ^ 23")
  case True
  with assms have "e = 1" by auto
  with True show ?thesis by (simp only: mag_def) simp
next
  case False
  define f where "f = m - 2 ^ 23"
  have m: "m = 2 ^ 23 + f" using False by (simp add: f_def)
  have k: "(e - 1) * 2 ^ 23 + m = e * 2 ^ 23 + f"
    using assms(1) by (simp add: m algebra_simps)
  show ?thesis
  proof (cases "f < 2 ^ 23")
    case True
    have "(e * 2 ^ 23 + f) div 2 ^ 23 = e" "(e * 2 ^ 23 + f) mod 2 ^ 23 = f"
      using True by simp_all
    moreover have "\<not> e * 2 ^ 23 + f < 2 ^ 23" using assms(1) by simp
    ultimately show ?thesis
      unfolding k mag_def using assms(1) by (simp add: m max_def)
  next
    case False
    with assms(2) have f: "f = 2 ^ 23" by (simp add: m)
    have "e * 2 ^ 23 + f = (e + 1) * 2 ^ 23" by (simp add: f)
    then have "(e * 2 ^ 23 + f) div 2 ^ 23 = e + 1" "(e * 2 ^ 23 + f) mod 2 ^ 23 = 0"
      by simp_all
    moreover have "\<not> e * 2 ^ 23 + f < 2 ^ 23" using assms(1) by simp
    moreover have "(2::real) ^ e = 2 * 2 ^ (e - 1)" using assms(1) by (cases e) simp_all
    ultimately show ?thesis
      unfolding k mag_def by (simp add: m f)
  qed
qed

lemma expo_le:
  assumes "X < 2 ^ (n + 23)" "1 \<le> n"
  shows "expo X \<le> n"
proof (cases "X < 2 ^ 23")
  case True
  then show ?thesis using assms(2) by (simp only: expo_subnormal)
next
  case False
  then have "2 ^ (expo X + 22) \<le> X" by (intro expo_normal) simp
  with assms(1) have "(2::real) ^ (expo X + 22) < 2 ^ (n + 23)" by linarith
  then have "expo X + 22 < n + 23" by (rule power_less_imp_less_exp[rotated]) simp
  then show ?thesis by simp
qed

lemma expo_ge:
  assumes "2 ^ (n + 22) \<le> X" "1 \<le> n"
  shows "n \<le> expo X"
proof -
  have "(2::real) ^ 23 \<le> 2 ^ (n + 22)" by (rule power_increasing) (use assms in auto)
  with assms have "2 ^ 23 \<le> X" by linarith
  then have "X < 2 ^ (expo X + 23)" by (rule expo_normal)
  with assms(1) have "(2::real) ^ (n + 22) < 2 ^ (expo X + 23)" by linarith
  then have "n + 22 < expo X + 23" by (rule power_less_imp_less_exp[rotated]) simp
  then show ?thesis by simp
qed

lemma mantissa_less:
  assumes "0 \<le> X"
  shows "X / 2 ^ (expo X - 1) < 2 ^ 24"
proof (cases "X < 2 ^ 23")
  case True
  then show ?thesis by (simp add: expo_subnormal)
next
  case False
  then have "X < 2 ^ (expo X + 23)" by (intro expo_normal) simp
  also have "expo X + 23 = 24 + (expo X - 1)" using expo_ge1[of X] by simp
  finally show ?thesis by (simp only: power_add pos_divide_less_eq zero_less_power zero_less_numeral)
qed

lemma mantissa_ge:
  assumes "1 < expo X"
  shows "2 ^ 23 \<le> X / 2 ^ (expo X - 1)"
proof -
  have "\<not> X < 2 ^ 23" using assms expo_subnormal[of X] by auto
  then have "2 ^ (expo X + 22) \<le> X" by (intro expo_normal) simp
  moreover have "expo X + 22 = 23 + (expo X - 1)" using assms by simp
  ultimately have "2 ^ (23 + (expo X - 1)) \<le> X" by simp
  then show ?thesis by (simp only: power_add pos_le_divide_eq zero_less_power zero_less_numeral)
qed

lemma rne_mantissa:
  assumes "0 \<le> X"
  shows "rne (X / 2 ^ (expo X - 1)) \<le> 2 ^ 24" "1 < expo X \<longrightarrow> 2 ^ 23 \<le> rne (X / 2 ^ (expo X - 1))"
proof -
  have "X / 2 ^ (expo X - 1) \<le> real (2 ^ 24)"
    using mantissa_less[OF assms] by simp
  then show "rne (X / 2 ^ (expo X - 1)) \<le> 2 ^ 24"
    using assms by (intro rne_le) simp_all
  show "1 < expo X \<longrightarrow> 2 ^ 23 \<le> rne (X / 2 ^ (expo X - 1))"
  proof
    assume "1 < expo X"
    then have "real (2 ^ 23) \<le> X / 2 ^ (expo X - 1)" using mantissa_ge by simp
    then show "2 ^ 23 \<le> rne (X / 2 ^ (expo X - 1))" by (rule rne_ge)
  qed
qed

lemma round_mag_finite_form:
  assumes "x < 2 ^ 128"
  shows "round_mag x = (expo (x * 2 ^ 149) - 1) * 2 ^ 23 + rne (x * 2 ^ 149 / 2 ^ (expo (x * 2 ^ 149) - 1))"
  using assms by (simp only: round_mag_def Let_def) simp

lemma round_mag_le_inf:
  assumes "0 \<le> x"
  shows "round_mag x \<le> inf_bits"
proof (cases "x < 2 ^ 128")
  case False
  then show ?thesis by (simp only: round_mag_def) simp
next
  case True
  let ?X = "x * 2 ^ 149"
  have X0: "0 \<le> ?X" using assms by simp
  have "?X < 2 ^ 128 * 2 ^ 149" using True by (simp only: mult_less_cancel_right_pos zero_less_power zero_less_numeral)
  then have "?X < 2 ^ (254 + 23)" by (simp only: power_add[symmetric]) simp
  then have e: "expo ?X \<le> 254" by (rule expo_le) simp
  have m: "rne (?X / 2 ^ (expo ?X - 1)) \<le> 2 ^ 24" using X0 by (rule rne_mantissa)
  have "(expo ?X - 1) * 2 ^ 23 \<le> 253 * 2 ^ 23" using e by (intro mult_right_mono) simp_all
  then show ?thesis
    using m unfolding round_mag_finite_form[OF True] inf_bits_def by simp
qed

lemma mag_round_mag:
  assumes "0 \<le> x" "x < 2 ^ 128"
  shows "mag (round_mag x) =
    real (rne (x * 2 ^ 149 / 2 ^ (expo (x * 2 ^ 149) - 1))) * 2 ^ (expo (x * 2 ^ 149) - 1) / 2 ^ 149"
proof -
  have X0: "0 \<le> x * 2 ^ 149" using assms by simp
  show ?thesis
    unfolding round_mag_finite_form[OF assms(2)]
    by (rule mag_compose) (use expo_ge1 rne_mantissa[OF X0] in simp_all)
qed

lemma mag_nonneg: "0 \<le> mag k"
  by (simp add: mag_def)

lemma mag_eq_0_iff: "mag k = 0 \<longleftrightarrow> k = 0"
  by (simp add: mag_def)

lemma mag_inf_bits: "mag inf_bits = 2 ^ 128"
  by (simp add: mag_def inf_bits_def)

lemma mag_scaled:
  "mag k * 2 ^ 149 = real (if k < 2 ^ 23 then k else 2 ^ 23 + k mod 2 ^ 23) * 2 ^ (max 1 (k div 2 ^ 23) - 1)"
  by (simp only: mag_def) simp

lemma mag_finite_less:
  assumes "k < inf_bits"
  shows "mag k < 2 ^ 128"
proof -
  have d: "k div 2 ^ 23 \<le> 254" using assms by (simp add: inf_bits_def)
  have "real (if k < 2 ^ 23 then k else 2 ^ 23 + k mod 2 ^ 23) < 2 ^ 24"
    by (simp add: less_le_trans[OF pos_mod_bound, of "2 ^ 23" "2 ^ 23" k])
  moreover have "(2::real) ^ (max 1 (k div 2 ^ 23) - 1) \<le> 2 ^ 253"
    by (rule power_increasing) (use d in auto)
  ultimately have "mag k * 2 ^ 149 < 2 ^ 24 * 2 ^ 253"
    unfolding mag_scaled by (intro mult_less_le_imp_less) simp_all
  also have "\<dots> = (2::real) ^ 128 * 2 ^ 149" by (simp only: power_add[symmetric]) simp
  finally show ?thesis by (simp only: mult_less_cancel_right_pos zero_less_power zero_less_numeral)
qed

lemma round_mag_mag:
  assumes "k \<le> inf_bits"
  shows "round_mag (mag k) = k"
proof (cases "k = inf_bits")
  case True
  then show ?thesis by (simp add: mag_inf_bits round_mag_def)
next
  case False
  with assms have k: "k < inf_bits" by simp
  let ?M = "if k < 2 ^ 23 then k else 2 ^ 23 + k mod 2 ^ 23"
  let ?E = "max 1 (k div 2 ^ 23)"
  have X: "mag k * 2 ^ 149 = real ?M * 2 ^ (?E - 1)" by (rule mag_scaled)
  have e: "expo (real ?M * 2 ^ (?E - 1)) = ?E"
  proof (cases "k < 2 ^ 23")
    case True
    then show ?thesis by (simp add: expo_subnormal)
  next
    case False
    then have E: "?E = k div 2 ^ 23" "1 \<le> k div 2 ^ 23"
      by (simp_all add: max_def Suc_le_eq div_greater_zero_iff)
    have M: "(2::real) ^ 23 \<le> real ?M" "real ?M < 2 ^ 24"
      using False by (simp_all add: less_le_trans[OF pos_mod_bound, of "2 ^ 23" "2 ^ 23" k])
    have p: "?E + 22 = 23 + (?E - 1)" "?E + 23 = 24 + (?E - 1)" using E by simp_all
    show ?thesis
    proof (rule expo_eqI)
      show "1 \<le> ?E" by simp
      show "2 ^ (?E + 22) \<le> real ?M * 2 ^ (?E - 1)"
        unfolding p(1) power_add using M(1) by (intro mult_right_mono) simp_all
      show "real ?M * 2 ^ (?E - 1) < 2 ^ (?E + 23)"
        unfolding p(2) power_add using M(2) by (intro mult_strict_right_mono) simp_all
    qed
  qed
  have "round_mag (mag k) = (?E - 1) * 2 ^ 23 + rne (real ?M * 2 ^ (?E - 1) / 2 ^ (?E - 1))"
    unfolding round_mag_finite_form[OF mag_finite_less[OF k]] X e ..
  also have "\<dots> = (?E - 1) * 2 ^ 23 + ?M" by simp
  also have "\<dots> = k"
  proof (cases "k < 2 ^ 23")
    case True
    then show ?thesis by simp
  next
    case False
    then have "1 \<le> k div 2 ^ 23" by (simp add: Suc_le_eq div_greater_zero_iff)
    then have "(max 1 (k div 2 ^ 23) - 1) * 2 ^ 23 + 2 ^ 23 = k div 2 ^ 23 * 2 ^ 23"
      by (simp add: max_def algebra_simps)
    moreover have "k div 2 ^ 23 * 2 ^ 23 + k mod 2 ^ 23 = k" by (rule div_mult_mod_eq)
    ultimately show ?thesis using False by (simp only: if_False)
  qed
  finally show ?thesis .
qed


lemma round_mag_zero [simp]: "round_mag 0 = 0"
  by (simp add: round_mag_def expo_def rne_def)

lemma round_mag_finite:
  assumes "0 \<le> x" "x < 2 ^ 127"
  shows "round_mag x < inf_bits"
proof -
  let ?X = "x * 2 ^ 149"
  have lt: "x < 2 ^ 128"
    using assms(2) by (rule less_trans) simp
  have X0: "0 \<le> ?X"
    using assms by simp
  have "?X < 2 ^ 127 * 2 ^ 149"
    using assms(2) by (simp only: mult_less_cancel_right_pos zero_less_power zero_less_numeral)
  then have "?X < 2 ^ (253 + 23)"
    by (simp only: power_add[symmetric]) simp
  then have e: "expo ?X \<le> 253"
    by (rule expo_le) simp
  have m: "rne (?X / 2 ^ (expo ?X - 1)) \<le> 2 ^ 24"
    using X0 by (rule rne_mantissa)
  have "(expo ?X - 1) * 2 ^ 23 \<le> 252 * 2 ^ 23"
    using e by (intro mult_right_mono) simp_all
  then show ?thesis
    using m unfolding round_mag_finite_form[OF lt] inf_bits_def by simp
qed

lemma round_mag_pos:
  assumes "1 \<le> x"
  shows "0 < round_mag x"
proof (cases "x < 2 ^ 128")
  case False
  then show ?thesis
    by (simp only: round_mag_def) (simp add: inf_bits_def)
next
  case True
  let ?X = "x * 2 ^ 149"
  have "1 * 2 ^ 149 \<le> ?X"
    using assms by (intro mult_right_mono) simp_all
  then have "2 ^ (127 + 22) \<le> ?X"
    by simp
  then have "127 \<le> expo ?X"
    by (rule expo_ge) simp
  then have "0 < (expo ?X - 1) * 2 ^ 23"
    by simp
  then show ?thesis
    unfolding round_mag_finite_form[OF True] by simp
qed

lemma mag_round_mag_le_pow2:
  assumes "0 \<le> x" "x * 2 ^ 149 \<le> 2 ^ p" "p \<le> 276"
  shows "mag (round_mag x) * 2 ^ 149 \<le> 2 ^ p"
proof -
  let ?X = "x * 2 ^ 149"
  let ?e = "expo ?X"
  have X0: "0 \<le> ?X"
    using assms(1) by simp
  have "(2::real) ^ p \<le> 2 ^ 276"
    using assms(3) by (intro power_increasing) simp_all
  also have "\<dots> < (2::real) ^ 128 * 2 ^ 149"
    by (simp only: power_add[symmetric]) simp
  finally have "?X < 2 ^ 128 * 2 ^ 149"
    using assms(2) by linarith
  then have lt: "x < 2 ^ 128"
    by (simp only: mult_less_cancel_right_pos zero_less_power zero_less_numeral)
  have ep: "?e - 1 \<le> p"
  proof (cases "?X < 2 ^ 23")
    case True
    then show ?thesis
      by (simp add: expo_subnormal)
  next
    case False
    then have "2 ^ (?e + 22) \<le> ?X"
      by (intro expo_normal) simp
    with assms(2) have "(2::real) ^ (?e + 22) \<le> 2 ^ p"
      by linarith
    then have "?e + 22 \<le> p"
      by (rule power_le_imp_le_exp[rotated]) simp
    then show ?thesis
      by simp
  qed
  then have split: "(2::real) ^ p = 2 ^ (p - (?e - 1)) * 2 ^ (?e - 1)"
    by (simp add: power_add[symmetric])
  have "?X \<le> 2 ^ (p - (?e - 1)) * 2 ^ (?e - 1)"
    using assms(2) by (simp only: split[symmetric])
  then have "?X / 2 ^ (?e - 1) \<le> 2 ^ (p - (?e - 1))"
    by (simp only: pos_divide_le_eq zero_less_power zero_less_numeral)
  then have "?X / 2 ^ (?e - 1) \<le> real (2 ^ (p - (?e - 1)))"
    by simp
  then have "rne (?X / 2 ^ (?e - 1)) \<le> 2 ^ (p - (?e - 1))"
    using X0 by (intro rne_le) simp_all
  then have "real (rne (?X / 2 ^ (?e - 1))) \<le> 2 ^ (p - (?e - 1))"
    by (metis of_nat_le_iff of_nat_numeral of_nat_power)
  then have "real (rne (?X / 2 ^ (?e - 1))) * 2 ^ (?e - 1) \<le> 2 ^ (p - (?e - 1)) * 2 ^ (?e - 1)"
    by (intro mult_right_mono) simp_all
  then show ?thesis
    unfolding mag_round_mag[OF assms(1) lt] split[symmetric] by simp
qed

lemma mag_round_mag_le_one:
  assumes "0 \<le> x" "x \<le> 1"
  shows "mag (round_mag x) \<le> 1"
proof -
  have "x * 2 ^ 149 \<le> 1 * 2 ^ 149"
    using assms(2) by (intro mult_right_mono) simp_all
  then have "mag (round_mag x) * 2 ^ 149 \<le> 2 ^ 149"
    using assms(1) by (intro mag_round_mag_le_pow2) simp_all
  then show ?thesis
    by simp
qed

section \<open>Properties of the operations of \<^verbatim>\<open>float\<close>\<close>

lemma binary32_simps [simp]:
  "fzero binary32 = Float32 False 0" "fone binary32 = Float32 False (127 * 2 ^ 23)"
  "feps binary32 = round32 (1 / 10 ^ 9)"
  "fadd binary32 = f32_add" "fsub binary32 = f32_sub" "fmul binary32 = f32_mul"
  "fdiv binary32 = f32_div" "fsqrt binary32 = f32_sqrt" "fabs binary32 = f32_abs"
  "fless binary32 = f32_less" "of_size binary32 = f32_of_size"
  by (simp_all add: binary32_def)

lemma qnan_is_nan [simp]: "is_nan qnan"
  by (simp add: qnan_def is_nan_def)

lemma finite_iff: "is_finite a \<longleftrightarrow> \<not> is_nan a \<and> \<not> is_inf a"
  by (auto simp: is_finite_def is_nan_def is_inf_def)

lemma valof_nonneg: "\<not> sign_bit a \<Longrightarrow> 0 \<le> valof a"
  by (simp add: valof_def mag_nonneg)

lemma valof_one: "valof (Float32 False (127 * 2 ^ 23)) = 1"
  by (simp add: valof_def mag_def)

lemma round32_not_nan: "\<not> is_nan (round32 x)"
  using round_mag_le_inf[of "\<bar>x\<bar>"] by (simp add: round32_def is_nan_def)

lemma round32_sign: "sign_bit (round32 x) \<longleftrightarrow> x < 0"
  by (simp add: round32_def)

lemma round32_valof:
  assumes "is_finite a" "\<not> is_zero a"
  shows "round32 (valof a) = a"
proof -
  have k: "mag_bits a \<le> inf_bits" "mag (mag_bits a) \<noteq> 0"
    using assms by (simp_all add: is_finite_def is_zero_def mag_eq_0_iff)
  then have pos: "0 < mag (mag_bits a)"
    using mag_nonneg[of "mag_bits a"] by linarith
  show ?thesis
  proof (cases "sign_bit a")
    case True
    then show ?thesis
      using pos round_mag_mag[OF k(1)] by (cases a) (simp add: round32_def valof_def)
  next
    case False
    then have "\<not> mag (mag_bits a) < 0"
      using pos by linarith
    with False show ?thesis
      using round_mag_mag[OF k(1)] by (cases a) (simp add: round32_def valof_def mag_nonneg)
  qed
qed

lemma round32_one: "round32 1 = Float32 False (127 * 2 ^ 23)"
proof -
  have "round32 (valof (Float32 False (127 * 2 ^ 23))) = Float32 False (127 * 2 ^ 23)"
    by (rule round32_valof) (simp_all add: is_finite_def is_zero_def inf_bits_def)
  then show ?thesis
    by (simp only: valof_one)
qed

subsection \<open>Signs\<close>

lemma f32_add_nonneg:
  assumes "is_nan a \<or> \<not> sign_bit a" "is_nan b \<or> \<not> sign_bit b"
  shows "is_nan (f32_add a b) \<or> \<not> sign_bit (f32_add a b)"
proof (cases "is_nan a \<or> is_nan b")
  case True
  then show ?thesis
    by (simp add: f32_add_def)
next
  case False
  with assms have s: "\<not> sign_bit a" "\<not> sign_bit b"
    by auto
  then have "0 \<le> valof a + valof b"
    by (simp add: valof_nonneg)
  then have "\<not> valof a + valof b < 0"
    by linarith
  then show ?thesis
    using s by (simp add: f32_add_def Let_def round32_sign)
qed

lemma f32_abs_nonneg: "\<not> sign_bit (f32_abs a)"
  by (simp add: f32_abs_def)

lemma f32_mul_self_nonneg: "is_nan (f32_mul a a) \<or> \<not> sign_bit (f32_mul a a)"
  by (simp add: f32_mul_def)

lemma f32_div_nonneg:
  assumes "is_nan a \<or> \<not> sign_bit a" "\<not> sign_bit b"
  shows "is_nan (f32_div a b) \<or> \<not> sign_bit (f32_div a b)"
  using assms by (auto simp: f32_div_def)

lemma f32_of_size_nonneg: "\<not> sign_bit (f32_of_size n)" "\<not> is_nan (f32_of_size n)"
  by (simp_all add: f32_of_size_def round32_sign round32_not_nan)

lemma f32_of_size_nonzero: "1 \<le> n \<Longrightarrow> \<not> is_zero (f32_of_size n)"
  using round_mag_pos[of "real n"] by (simp add: f32_of_size_def round32_def is_zero_def)

lemma foldl_add_nonneg:
  assumes "is_nan s \<or> \<not> sign_bit s" "\<forall>x\<in>set xs. is_nan x \<or> \<not> sign_bit x"
  shows "is_nan (foldl f32_add s xs) \<or> \<not> sign_bit (foldl f32_add s xs)"
  using assms
proof (induction xs arbitrary: s)
  case Nil
  then show ?case by simp
next
  case (Cons x xs)
  have "is_nan (f32_add s x) \<or> \<not> sign_bit (f32_add s x)"
    using Cons.prems by (intro f32_add_nonneg) simp_all
  then show ?case
    using Cons.prems by (simp add: Cons.IH)
qed

subsection \<open>Zeros\<close>

lemma f32_add_zero_zero: "f32_add (Float32 False 0) (Float32 s 0) = Float32 False 0"
  by (simp add: f32_add_def is_nan_def is_inf_def inf_bits_def valof_def mag_def)

lemma f32_add_zero_left:
  assumes "is_finite a" "\<not> is_zero a"
  shows "f32_add (Float32 False 0) a = a"
proof -
  have "valof (Float32 False 0) = 0"
    by (simp add: valof_def mag_def)
  moreover have "valof a \<noteq> 0"
    using assms(2) by (simp add: valof_def is_zero_def mag_eq_0_iff)
  moreover have "\<not> is_nan (Float32 False 0)" "\<not> is_inf (Float32 False 0)"
    by (simp_all add: is_nan_def is_inf_def inf_bits_def)
  ultimately show ?thesis
    using assms by (simp add: f32_add_def finite_iff round32_valof)
qed

lemma f32_mul_zero_left:
  assumes "is_finite b"
  shows "f32_mul (Float32 False 0) b = Float32 (sign_bit b) 0"
  using assms
  by (simp add: f32_mul_def finite_iff) (simp add: is_nan_def is_inf_def is_zero_def inf_bits_def mag_def)

lemma f32_div_zero_left:
  assumes "\<not> is_nan b" "\<not> is_zero b"
  shows "f32_div (Float32 False 0) b = Float32 (sign_bit b) 0"
  using assms
  by (simp add: f32_div_def) (simp add: is_nan_def is_inf_def is_zero_def inf_bits_def mag_def)

lemma foldl_add_zeros:
  assumes "\<forall>x\<in>set xs. \<exists>s. x = Float32 s 0"
  shows "foldl f32_add (Float32 False 0) xs = Float32 False 0"
  using assms by (induction xs) (auto simp: f32_add_zero_zero)

subsection \<open>Finiteness\<close>

lemma f32_add_finite_imp:
  assumes "is_finite (f32_add a b)"
  shows "is_finite a \<and> is_finite b"
  using assms by (auto simp: f32_add_def finite_iff split: if_splits)

lemma f32_mul_finite_imp:
  assumes "is_finite (f32_mul a b)"
  shows "is_finite a \<and> is_finite b"
  using assms by (auto simp: f32_mul_def finite_iff is_inf_def split: if_splits)

lemma foldl_squares_finite_imp:
  assumes "is_finite (foldl f32_add s (map2 f32_mul b b))"
  shows "is_finite s \<and> (\<forall>x\<in>set b. is_finite x)"
  using assms
proof (induction b arbitrary: s)
  case Nil
  then show ?case by simp
next
  case (Cons x b)
  from Cons.prems have "is_finite (foldl f32_add (f32_add s (f32_mul x x)) (map2 f32_mul b b))"
    by simp
  from Cons.IH[OF this] have 1: "is_finite (f32_add s (f32_mul x x))"
    and 2: "\<forall>y\<in>set b. is_finite y"
    by blast+
  from f32_add_finite_imp[OF 1] have 3: "is_finite s" and 4: "is_finite (f32_mul x x)"
    by blast+
  from f32_mul_finite_imp[OF 4] have "is_finite x"
    by blast
  with 2 3 show ?case
    by simp
qed

lemma f32_sqrt_finite:
  assumes "is_finite a" "\<not> sign_bit a"
  shows "is_finite (f32_sqrt a)" "\<not> sign_bit (f32_sqrt a)"
proof -
  have "mag (mag_bits a) < 2 ^ 128"
    using assms(1) by (intro mag_finite_less) (simp add: is_finite_def)
  then have "sqrt (mag (mag_bits a)) < sqrt (2 ^ 128)"
    by (simp only: real_sqrt_less_iff)
  also have "sqrt (2 ^ 128) = (2::real) ^ 64"
    by (rule real_sqrt_unique) simp_all
  also have "(2::real) ^ 64 < 2 ^ 127"
    by simp
  finally have "round_mag (sqrt (mag (mag_bits a))) < inf_bits"
    by (intro round_mag_finite) (simp_all add: mag_nonneg)
  then show "is_finite (f32_sqrt a)" "\<not> sign_bit (f32_sqrt a)"
    using assms by (simp_all add: f32_sqrt_def finite_iff) (simp_all add: is_finite_def is_nan_def is_inf_def)
qed

subsection \<open>Commutativity of the product\<close>

text \<open>
  The product of the model is commutative. Of the program this holds of every product
  that is not a NaN; two NaN products are both NaNs.
\<close>

lemma f32_mul_commute: "f32_mul a b = f32_mul b a"
  by (auto simp: f32_mul_def mult.commute)

lemma map2_commute:
  assumes "\<And>x y. f x y = f y x"
  shows "map2 f a b = map2 f b a"
proof (induction a arbitrary: b)
  case Nil
  show ?case by simp
next
  case (Cons x a)
  then show ?case
    using assms by (cases b) simp_all
qed

lemma calculate_resonance_commute:
  assumes "\<And>x y. fmul A x y = fmul A y x" "length a = length b"
  shows "calculate_resonance A a b = calculate_resonance A b a"
proof (cases "a = []")
  case True
  with assms(2) show ?thesis
    by (simp add: calculate_resonance_def)
next
  case False
  with assms(2) have "b \<noteq> []"
    by auto
  with False assms(2) show ?thesis
    by (simp add: calculate_resonance_fold dot_def map2_commute[of "fmul A" a b, OF assms(1)]
        assms(1)[of "vec_norm A a" "vec_norm A b"])
qed

subsection \<open>Values of some bit patterns\<close>

lemma mag_one: "mag (127 * 2 ^ 23) = 1"
  by (simp add: mag_def)

lemma mag_two: "mag (128 * 2 ^ 23) = 2"
  by (simp add: mag_def)

lemma mag_two_pow_64: "mag (191 * 2 ^ 23) = 2 ^ 64"
  by (simp add: mag_def)

lemma mag_two_pow_minus_30: "mag (97 * 2 ^ 23) = 1 / 2 ^ 30"
  by (simp add: mag_def)

lemma round_mag_one: "round_mag 1 = 127 * 2 ^ 23"
  using round_mag_mag[of "127 * 2 ^ 23"] by (simp only: mag_one) (simp add: inf_bits_def)

lemma round_mag_two: "round_mag 2 = 128 * 2 ^ 23"
  using round_mag_mag[of "128 * 2 ^ 23"] by (simp only: mag_two) (simp add: inf_bits_def)

lemma round_mag_eps: "round_mag (1 / 10 ^ 9) = 0x3089705F"
proof -
  have e: "expo (1 / 10 ^ 9 * 2 ^ 149) = 97"
    by (rule expo_eqI) simp_all
  show ?thesis
    by (simp only: round_mag_def Let_def e) (simp add: rne_def)
qed

lemma round_mag_absorbed: "round_mag (1 - 1 / 2 ^ 30) = 127 * 2 ^ 23"
proof -
  have e: "expo ((1 - 1 / 2 ^ 30) * 2 ^ 149) = 126"
    by (rule expo_eqI) simp_all
  show ?thesis
    by (simp only: round_mag_def Let_def e) (simp add: rne_def)
qed

lemma round_mag_overflow: "round_mag (2 ^ 64 * 2 ^ 64) = inf_bits"
  by (simp add: round_mag_def)

lemma feps_binary32: "feps binary32 = Float32 False 0x3089705F"
proof -
  have "\<bar>1 / 10 ^ 9\<bar> = (1 / 10 ^ 9 :: real)" "\<not> (1 / 10 ^ 9 :: real) < 0"
    by simp_all
  then show ?thesis
    by (simp only: binary32_simps round32_def round_mag_eps)
qed

text \<open>
  The rounding agrees with the \<^verbatim>\<open>float\<close> values of some decimal literals and with the
  rounding of ties: \<^verbatim>\<open>0.1f\<close> is \<open>0x3DCCCCCD\<close>, \<open>2^24 + 1\<close> rounds down to the even
  \<open>2^24\<close> and \<open>2^24 + 3\<close> up to \<open>2^24 + 4\<close>, half of the least subnormal rounds to zero,
  and \<open>2^128 - 2^103\<close> (half an ulp above the largest finite value) rounds to infinity.
\<close>

lemma round_mag_tenth: "round_mag (1 / 10) = 0x3DCCCCCD"
proof -
  have e: "expo (1 / 10 * 2 ^ 149) = 123"
    by (rule expo_eqI) simp_all
  show ?thesis
    by (simp only: round_mag_def Let_def e) (simp add: rne_def)
qed

lemma round_mag_ties:
  "round_mag (2 ^ 24 + 1) = 0x4B800000" "round_mag (2 ^ 24 + 3) = 0x4B800002"
  "round_mag (1 / 2 ^ 150) = 0" "round_mag (2 ^ 128 - 2 ^ 103) = inf_bits"
proof -
  have e: "expo ((2 ^ 24 + 1) * 2 ^ 149) = 151" "expo ((2 ^ 24 + 3) * 2 ^ 149) = 151"
    "expo ((2 ^ 128 - 2 ^ 103) * 2 ^ 149) = 254"
    by (rule expo_eqI; simp)+
  have e': "expo (1 / 2 ^ 150 * 2 ^ 149) = 1"
    by (rule expo_subnormal) simp
  show "round_mag (2 ^ 24 + 1) = 0x4B800000" "round_mag (2 ^ 24 + 3) = 0x4B800002"
    "round_mag (1 / 2 ^ 150) = 0" "round_mag (2 ^ 128 - 2 ^ 103) = inf_bits"
    by (simp_all only: round_mag_def Let_def e e') (simp_all add: rne_def inf_bits_def)
qed

subsection \<open>Operations on particular operands\<close>

lemma f32_sub_zero_right:
  assumes "is_finite a" "\<not> is_zero a"
  shows "f32_sub a (Float32 s 0) = a"
proof -
  have "valof (f32_neg (Float32 s 0)) = 0"
    by (simp add: valof_def f32_neg_def mag_def)
  moreover have "valof a \<noteq> 0"
    using assms(2) by (simp add: valof_def is_zero_def mag_eq_0_iff)
  moreover have "\<not> is_nan (f32_neg (Float32 s 0))" "\<not> is_inf (f32_neg (Float32 s 0))"
    by (simp_all add: is_nan_def is_inf_def inf_bits_def f32_neg_def)
  ultimately show ?thesis
    using assms by (simp add: f32_sub_def f32_add_def finite_iff round32_valof)
qed

lemma f32_div_one:
  assumes "is_finite a"
  shows "f32_div a (Float32 False (127 * 2 ^ 23)) = a"
proof -
  have one: "\<not> is_nan (Float32 False (127 * 2 ^ 23))" "\<not> is_inf (Float32 False (127 * 2 ^ 23))"
    "\<not> is_zero (Float32 False (127 * 2 ^ 23))"
    by (simp_all add: is_nan_def is_inf_def is_zero_def inf_bits_def)
  have "mag_bits a \<le> inf_bits"
    using assms by (simp add: is_finite_def)
  then have "round_mag (mag (mag_bits a) / mag (127 * 2 ^ 23)) = mag_bits a"
    by (simp only: mag_one div_by_1 round_mag_mag)
  then show ?thesis
    using assms one by (cases a) (simp add: f32_div_def finite_iff)
qed

lemma f32_of_size_one: "f32_of_size 1 = Float32 False (127 * 2 ^ 23)"
  by (simp add: f32_of_size_def round32_one)

section \<open>The operators in \<^verbatim>\<open>float\<close> arithmetic\<close>

subsection \<open>Coherence\<close>

lemma mean_abs_binary32_nonneg:
  "is_nan (mean_abs binary32 w) \<or> \<not> sign_bit (mean_abs binary32 w)"
proof -
  have "is_nan (foldl f32_add (Float32 False 0) (map f32_abs w)) \<or>
      \<not> sign_bit (foldl f32_add (Float32 False 0) (map f32_abs w))"
    by (rule foldl_add_nonneg) (simp_all add: f32_abs_nonneg)
  then show ?thesis
    unfolding mean_abs_def binary32_simps
    by (rule f32_div_nonneg) (rule f32_of_size_nonneg)
qed

lemma calculate_coherence_binary32_range:
  "\<not> is_nan (calculate_coherence binary32 w) \<and>
   0 \<le> valof (calculate_coherence binary32 w) \<and> valof (calculate_coherence binary32 w) \<le> 1"
proof (cases "w = []")
  case True
  then show ?thesis
    by (simp add: calculate_coherence_def is_nan_def inf_bits_def valof_def mag_def)
next
  case False
  let ?s = "mean_abs binary32 w"
  have one: "\<not> is_nan (Float32 False (127 * 2 ^ 23))"
    by (simp add: is_nan_def inf_bits_def)
  show ?thesis
  proof (cases "f32_less ?s (Float32 False (127 * 2 ^ 23))")
    case True
    then have s: "\<not> is_nan ?s" "valof ?s < 1"
      unfolding f32_less_def valof_one by blast+
    with mean_abs_binary32_nonneg[of w] have "0 \<le> valof ?s"
      by (intro valof_nonneg) blast
    moreover have "calculate_coherence binary32 w = ?s"
      using False True by (simp only: calculate_coherence_fold std_min_def binary32_simps if_False if_True)
    ultimately show ?thesis
      using s by simp
  next
    case less: False
    have "calculate_coherence binary32 w = Float32 False (127 * 2 ^ 23)"
      using False less by (simp only: calculate_coherence_fold std_min_def binary32_simps if_False)
    then show ?thesis
      using one by (simp only: valof_one) simp
  qed
qed

subsection \<open>Stability\<close>

lemma mean_abs_diff_binary32_nonneg:
  "is_nan (mean_abs_diff binary32 g) \<or> \<not> sign_bit (mean_abs_diff binary32 g)"
proof -
  let ?ds = "map (\<lambda>i. f32_abs (f32_sub (g ! i) (g ! (i - 1)))) [1..<length g]"
  have "is_nan (foldl f32_add (Float32 False 0) ?ds) \<or> \<not> sign_bit (foldl f32_add (Float32 False 0) ?ds)"
    by (rule foldl_add_nonneg) (simp_all add: f32_abs_nonneg)
  then show ?thesis
    unfolding mean_abs_diff_def binary32_simps
    by (rule f32_div_nonneg) (rule f32_of_size_nonneg)
qed

lemma f32_sub_nan:
  assumes "is_nan t"
  shows "is_nan (f32_sub a t)"
proof -
  have "is_nan (f32_neg t)"
    using assms by (simp add: f32_neg_def is_nan_def)
  then show ?thesis
    by (simp add: f32_sub_def f32_add_def)
qed

lemma f32_sub_one_le:
  assumes "\<not> is_nan t" "\<not> sign_bit t"
  shows "valof (f32_sub (Float32 False (127 * 2 ^ 23)) t) \<le> 1"
proof -
  let ?one = "Float32 False (127 * 2 ^ 23)"
  have one: "\<not> is_nan ?one" "\<not> is_inf ?one"
    by (simp_all add: is_nan_def is_inf_def inf_bits_def)
  have n: "\<not> is_nan (f32_neg t)" "sign_bit (f32_neg t)" "mag_bits (f32_neg t) = mag_bits t"
    using assms by (simp_all add: f32_neg_def is_nan_def)
  show ?thesis
  proof (cases "is_inf (f32_neg t)")
    case True
    then have "f32_sub ?one t = f32_neg t"
      using one n(1) by (simp add: f32_sub_def f32_add_def)
    moreover have "valof (f32_neg t) \<le> 0"
      using n(2) by (simp add: valof_def mag_nonneg)
    ultimately show ?thesis
      by simp
  next
    case False
    define x where "x = valof ?one + valof (f32_neg t)"
    have "x = 1 - mag (mag_bits t)"
      unfolding x_def valof_one using n by (simp add: valof_def)
    then have le: "x \<le> 1"
      using mag_nonneg[of "mag_bits t"] by linarith
    have r: "f32_sub ?one t = (if x = 0 then Float32 False 0 else round32 x)"
      unfolding f32_sub_def f32_add_def Let_def x_def[symmetric] using one n False by simp
    have zero: "valof (Float32 False 0) = 0"
      by (simp add: valof_def mag_def)
    show ?thesis
    proof (cases "x \<le> 0")
      case True
      have "valof (round32 x) \<le> 0" if "x \<noteq> 0"
        using that True by (simp add: valof_def round32_def mag_nonneg)
      then have "valof (f32_sub ?one t) \<le> 0"
        unfolding r using zero by simp
      then show ?thesis
        by simp
    next
      case pos: False
      then have "valof (f32_sub ?one t) = mag (round_mag x)"
        unfolding r by (simp add: valof_def round32_def)
      moreover have "mag (round_mag x) \<le> 1"
        using pos le by (intro mag_round_mag_le_one) simp_all
      ultimately show ?thesis
        by simp
    qed
  qed
qed

lemma calculate_delta_i_binary32_le_one:
  assumes "\<not> is_nan (calculate_delta_i binary32 g)"
  shows "valof (calculate_delta_i binary32 g) \<le> 1"
proof (cases "length g < 2")
  case True
  then show ?thesis
    by (simp only: calculate_delta_i_fold binary32_simps if_True valof_one)
next
  case False
  let ?t = "mean_abs_diff binary32 g"
  have r: "calculate_delta_i binary32 g = f32_sub (Float32 False (127 * 2 ^ 23)) ?t"
    using False by (simp only: calculate_delta_i_fold binary32_simps if_False)
  have "\<not> is_nan ?t"
    using assms f32_sub_nan[of ?t] unfolding r by blast
  moreover from this have "\<not> sign_bit ?t"
    using mean_abs_diff_binary32_nonneg[of g] by blast
  ultimately show ?thesis
    unfolding r by (rule f32_sub_one_le)
qed

lemma f32_sub_equal_values:
  assumes "is_finite a" "is_finite b" "valof a = valof b"
  shows "f32_abs (f32_sub a b) = Float32 False 0"
proof -
  have "valof a + valof (f32_neg b) = 0"
    using assms(3) by (simp add: valof_def f32_neg_def)
  moreover have "\<not> is_nan (f32_neg b)" "\<not> is_inf (f32_neg b)"
    using assms(2) by (simp_all add: finite_iff is_nan_def is_inf_def f32_neg_def)
  ultimately have "f32_sub a b = Float32 (sign_bit a \<and> sign_bit (f32_neg b)) 0"
    using assms(1) by (simp add: f32_sub_def f32_add_def finite_iff)
  then show ?thesis
    by (simp add: f32_abs_def)
qed

lemma calculate_delta_i_binary32_constant:
  assumes "length g < 2 \<or>
    ((\<forall>x\<in>set g. is_finite x) \<and>
     (\<forall>i. 1 \<le> i \<and> i < length g \<longrightarrow> valof (g ! i) = valof (g ! (i - 1))))"
  shows "calculate_delta_i binary32 g = Float32 False (127 * 2 ^ 23)"
proof (cases "length g < 2")
  case True
  then show ?thesis
    by (simp only: calculate_delta_i_fold binary32_simps if_True)
next
  case False
  with assms have fin: "\<forall>x\<in>set g. is_finite x"
    and eq: "\<forall>i. 1 \<le> i \<and> i < length g \<longrightarrow> valof (g ! i) = valof (g ! (i - 1))"
    by blast+
  let ?ds = "map (\<lambda>i. f32_abs (f32_sub (g ! i) (g ! (i - 1)))) [1..<length g]"
  have "\<forall>d\<in>set ?ds. \<exists>s. d = Float32 s 0"
  proof
    fix d
    assume "d \<in> set ?ds"
    then obtain i where i: "1 \<le> i" "i < length g" and d: "d = f32_abs (f32_sub (g ! i) (g ! (i - 1)))"
      by auto
    from i eq have "valof (g ! i) = valof (g ! (i - 1))"
      by simp
    moreover have "is_finite (g ! i)" "is_finite (g ! (i - 1))"
      using fin i(2) by simp_all
    ultimately have "d = Float32 False 0"
      unfolding d by (intro f32_sub_equal_values)
    then show "\<exists>s. d = Float32 s 0" ..
  qed
  then have sum: "foldl f32_add (Float32 False 0) ?ds = Float32 False 0"
    by (rule foldl_add_zeros)
  have n: "\<not> is_nan (f32_of_size (length g - 1))" "\<not> sign_bit (f32_of_size (length g - 1))"
    "\<not> is_zero (f32_of_size (length g - 1))"
    using False by (simp_all add: f32_of_size_nonneg f32_of_size_nonzero)
  have t: "mean_abs_diff binary32 g = Float32 False 0"
    unfolding mean_abs_diff_def binary32_simps sum using n by (simp add: f32_div_zero_left)
  have "f32_sub (Float32 False (127 * 2 ^ 23)) (Float32 False 0) = Float32 False (127 * 2 ^ 23)"
    by (rule f32_sub_zero_right) (simp_all add: is_finite_def is_zero_def inf_bits_def)
  then show ?thesis
    using False by (simp only: calculate_delta_i_fold binary32_simps if_False t)
qed

lemma mean_abs_diff_pair:
  "mean_abs_diff A [x, y] = fdiv A (fadd A (fzero A) (fabs A (fsub A y x))) (of_size A 1)"
  by (simp add: mean_abs_diff_def)

lemma calculate_delta_i_pair:
  "calculate_delta_i A [x, y] =
     fsub A (fone A) (fdiv A (fadd A (fzero A) (fabs A (fsub A y x))) (of_size A 1))"
  by (simp add: calculate_delta_i_fold mean_abs_diff_pair)

lemma calculate_delta_i_binary32_negative:
  "calculate_delta_i binary32 [Float32 False (127 * 2 ^ 23), Float32 True (127 * 2 ^ 23)] =
     Float32 True (127 * 2 ^ 23)"
proof -
  let ?two = "Float32 False (128 * 2 ^ 23)" and ?one = "Float32 False (127 * 2 ^ 23)"
  let ?mone = "Float32 True (127 * 2 ^ 23)"
  have two: "is_finite ?two" "\<not> is_zero ?two"
    by (simp_all add: is_finite_def is_zero_def inf_bits_def)
  have cl: "\<not> is_nan (f32_neg ?two)" "\<not> is_inf (f32_neg ?two)" "\<not> is_nan ?one" "\<not> is_inf ?one"
    "\<not> is_nan (f32_neg ?one)" "\<not> is_inf (f32_neg ?one)" "\<not> is_nan ?mone" "\<not> is_inf ?mone"
    by (simp_all add: f32_neg_def is_nan_def is_inf_def inf_bits_def)
  have y: "valof ?mone + valof (f32_neg ?one) = - 2"
    unfolding valof_def f32_neg_def float32.sel mag_one by simp
  have "f32_sub ?mone ?one = round32 (- 2)"
    unfolding f32_sub_def f32_add_def Let_def y using cl by simp
  also have "\<dots> = Float32 True (128 * 2 ^ 23)"
    unfolding round32_def by (simp add: round_mag_two)
  finally have d: "f32_abs (f32_sub ?mone ?one) = ?two"
    by (simp only: f32_abs_def float32.sel)
  have s: "f32_add (Float32 False 0) ?two = ?two"
    by (rule f32_add_zero_left) (rule two)+
  have q: "f32_div ?two (f32_of_size 1) = ?two"
    unfolding f32_of_size_one by (rule f32_div_one) (rule two)
  have x: "valof ?one + valof (f32_neg ?two) = - 1"
    unfolding valof_def f32_neg_def float32.sel mag_one mag_two by simp
  have "f32_sub ?one ?two = round32 (- 1)"
    unfolding f32_sub_def f32_add_def Let_def x using cl by simp
  also have "\<dots> = Float32 True (127 * 2 ^ 23)"
    unfolding round32_def by (simp add: round_mag_one)
  finally have r: "f32_sub ?one ?two = Float32 True (127 * 2 ^ 23)" .
  show ?thesis
    unfolding calculate_delta_i_pair binary32_simps d s q r ..
qed

lemma calculate_delta_i_binary32_absorbed:
  "calculate_delta_i binary32 [Float32 False 0, Float32 False (97 * 2 ^ 23)] =
     Float32 False (127 * 2 ^ 23)"
proof -
  let ?tiny = "Float32 False (97 * 2 ^ 23)" and ?one = "Float32 False (127 * 2 ^ 23)"
  have tiny: "is_finite ?tiny" "\<not> is_zero ?tiny"
    by (simp_all add: is_finite_def is_zero_def inf_bits_def)
  have cl: "\<not> is_nan (f32_neg ?tiny)" "\<not> is_inf (f32_neg ?tiny)" "\<not> is_nan ?one" "\<not> is_inf ?one"
    by (simp_all add: f32_neg_def is_nan_def is_inf_def inf_bits_def)
  have "f32_sub ?tiny (Float32 False 0) = ?tiny"
    by (rule f32_sub_zero_right) (rule tiny)+
  then have d: "f32_abs (f32_sub ?tiny (Float32 False 0)) = ?tiny"
    by (simp only: f32_abs_def float32.sel)
  have s: "f32_add (Float32 False 0) ?tiny = ?tiny"
    by (rule f32_add_zero_left) (rule tiny)+
  have q: "f32_div ?tiny (f32_of_size 1) = ?tiny"
    unfolding f32_of_size_one by (rule f32_div_one) (rule tiny)
  have x: "valof ?one + valof (f32_neg ?tiny) = 1 - 1 / 2 ^ 30"
    unfolding valof_def f32_neg_def float32.sel mag_one mag_two_pow_minus_30 by simp
  have a: "\<bar>1 - 1 / 2 ^ 30\<bar> = (1 - 1 / 2 ^ 30 :: real)" "\<not> (1 - 1 / 2 ^ 30 :: real) < 0"
    "(1 - 1 / 2 ^ 30 :: real) \<noteq> 0"
    by simp_all
  have "f32_sub ?one ?tiny = round32 (1 - 1 / 2 ^ 30)"
    unfolding f32_sub_def f32_add_def Let_def x using cl a(3) by (simp only: if_False simp_thms)
  also have "\<dots> = ?one"
    by (simp only: round32_def a round_mag_absorbed)
  finally have r: "f32_sub ?one ?tiny = ?one" .
  show ?thesis
    unfolding calculate_delta_i_pair binary32_simps d s q r ..
qed

lemma calculate_delta_i_binary32_nan:
  "is_nan (calculate_delta_i binary32 [qnan, Float32 False 0])"
proof -
  have "is_nan (f32_sub (Float32 False 0) qnan)"
    by (rule f32_sub_nan) simp
  then have "is_nan (f32_abs (f32_sub (Float32 False 0) qnan))"
    by (simp add: f32_abs_def is_nan_def)
  then have "f32_add (Float32 False 0) (f32_abs (f32_sub (Float32 False 0) qnan)) = qnan"
    by (simp add: f32_add_def)
  moreover have "f32_div qnan (f32_of_size 1) = qnan"
    by (simp add: f32_div_def)
  ultimately show ?thesis
    unfolding calculate_delta_i_pair binary32_simps by (simp only: f32_sub_nan qnan_is_nan)
qed

subsection \<open>Resonance\<close>

lemma dot_zero_left:
  assumes "\<forall>x\<in>set c. is_finite x"
  shows "dot binary32 (replicate n (Float32 False 0)) c = Float32 False 0"
proof -
  have "\<forall>p\<in>set (map2 f32_mul (replicate n (Float32 False 0)) c). \<exists>s. p = Float32 s 0"
  proof
    fix p
    assume "p \<in> set (map2 f32_mul (replicate n (Float32 False 0)) c)"
    then obtain z x where zx: "(z, x) \<in> set (zip (replicate n (Float32 False 0)) c)"
      and p: "p = f32_mul z x"
      by auto
    from zx have "z \<in> set (replicate n (Float32 False 0))" "x \<in> set c"
      by (auto dest: set_zip_leftD set_zip_rightD)
    then have "z = Float32 False 0" "is_finite x"
      using assms by auto
    then show "\<exists>s. p = Float32 s 0"
      unfolding p by (simp add: f32_mul_zero_left)
  qed
  then show ?thesis
    unfolding dot_def binary32_simps by (rule foldl_add_zeros)
qed

lemma dot_self_nonneg: "is_nan (dot binary32 c c) \<or> \<not> sign_bit (dot binary32 c c)"
proof -
  have "\<forall>p\<in>set (map2 f32_mul c c). is_nan p \<or> \<not> sign_bit p"
  proof
    fix p
    assume "p \<in> set (map2 f32_mul c c)"
    then obtain x where "p = f32_mul x x"
      by (auto simp: zip_same)
    then show "is_nan p \<or> \<not> sign_bit p"
      by (simp add: f32_mul_self_nonneg)
  qed
  then show ?thesis
    unfolding dot_def binary32_simps by (intro foldl_add_nonneg) simp_all
qed

lemma calculate_resonance_binary32_zero_vector:
  assumes "c \<noteq> []" "is_finite (dot binary32 c c)"
  shows "calculate_resonance binary32 (replicate (length c) (Float32 False 0)) c = Float32 False 0"
proof -
  let ?z = "replicate (length c) (Float32 False 0)"
  let ?eps = "Float32 False 0x3089705F"
  have fin: "\<forall>x\<in>set c. is_finite x"
    using assms(2) foldl_squares_finite_imp[of "Float32 False 0" c]
    unfolding dot_def binary32_simps by blast
  have dzc: "dot binary32 ?z c = Float32 False 0"
    using fin by (rule dot_zero_left)
  have "dot binary32 ?z ?z = Float32 False 0"
    by (rule dot_zero_left) (simp add: is_finite_def inf_bits_def)
  then have nz: "vec_norm binary32 ?z = Float32 False 0"
    by (simp add: vec_norm_def f32_sqrt_def is_nan_def is_zero_def inf_bits_def)
  have "\<not> is_nan (dot binary32 c c)"
    using assms(2) by (simp add: finite_iff)
  then have "\<not> sign_bit (dot binary32 c c)"
    using dot_self_nonneg[of c] by blast
  then have nc: "is_finite (vec_norm binary32 c)" "\<not> sign_bit (vec_norm binary32 c)"
    using assms(2) unfolding vec_norm_def binary32_simps by (simp_all add: f32_sqrt_finite)
  then have m: "f32_mul (Float32 False 0) (vec_norm binary32 c) = Float32 False 0"
    by (simp add: f32_mul_zero_left)
  have eps: "is_finite ?eps" "\<not> is_zero ?eps" "\<not> is_nan ?eps" "\<not> sign_bit ?eps"
    by (simp_all add: is_finite_def is_zero_def is_nan_def inf_bits_def)
  have s: "f32_add (Float32 False 0) ?eps = ?eps"
    by (rule f32_add_zero_left) (rule eps)+
  have "f32_div (Float32 False 0) ?eps = Float32 (sign_bit ?eps) 0"
    by (rule f32_div_zero_left) (rule eps)+
  then have q: "f32_div (Float32 False 0) ?eps = Float32 False 0"
    by (simp only: float32.sel)
  have "calculate_resonance binary32 ?z c =
      f32_div (dot binary32 ?z c)
        (f32_add (f32_mul (vec_norm binary32 ?z) (vec_norm binary32 c)) (feps binary32))"
    using assms(1) by (subst calculate_resonance_fold) simp_all
  then show ?thesis
    unfolding dzc nz m feps_binary32 s q .
qed

lemma calculate_resonance_singleton:
  "calculate_resonance A [x] [y] =
     fdiv A (fadd A (fzero A) (fmul A x y))
       (fadd A (fmul A (fsqrt A (fadd A (fzero A) (fmul A x x)))
          (fsqrt A (fadd A (fzero A) (fmul A y y)))) (feps A))"
  by (simp add: calculate_resonance_fold dot_def vec_norm_def)

lemma calculate_resonance_binary32_overflow:
  "calculate_resonance binary32 [Float32 False 0] [Float32 False (191 * 2 ^ 23)] = qnan"
proof -
  let ?z = "Float32 False 0" and ?b = "Float32 False (191 * 2 ^ 23)"
  let ?inf = "Float32 False inf_bits"
  have z: "\<not> is_nan ?z" "\<not> is_inf ?z" "is_zero ?z" "is_finite ?z"
    and b: "\<not> is_nan ?b" "\<not> is_inf ?b" "\<not> is_zero ?b" "is_finite ?b"
    and i: "\<not> is_nan ?inf" "is_inf ?inf" "\<not> is_zero ?inf" "\<not> sign_bit ?inf"
    by (simp_all add: is_nan_def is_inf_def is_zero_def is_finite_def inf_bits_def)
  have zb: "f32_mul ?z ?b = ?z"
    using b(4) by (simp add: f32_mul_zero_left)
  have zz: "f32_mul ?z ?z = ?z"
    using z(4) by (simp add: f32_mul_zero_left)
  have az: "f32_add ?z ?z = ?z"
    by (rule f32_add_zero_zero)
  have sz: "f32_sqrt ?z = ?z"
    using z by (simp add: f32_sqrt_def)
  have bb: "f32_mul ?b ?b = ?inf"
    unfolding f32_mul_def float32.sel mag_two_pow_64 round_mag_overflow using b by simp
  have ai: "f32_add ?z ?inf = ?inf"
    using z i by (simp add: f32_add_def)
  have si: "f32_sqrt ?inf = ?inf"
    using i by (simp add: f32_sqrt_def)
  have zi: "f32_mul ?z ?inf = qnan"
    using z i by (simp add: f32_mul_def)
  have qe: "f32_add qnan (feps binary32) = qnan"
    by (simp add: f32_add_def)
  have dq: "f32_div ?z qnan = qnan"
    by (simp add: f32_div_def)
  show ?thesis
    unfolding calculate_resonance_singleton binary32_simps(1-2,4-11) zb zz az sz bb ai si zi qe dq ..
qed

lemma calculate_resonance_binary32_overflow_swapped:
  "calculate_resonance binary32 [Float32 False (191 * 2 ^ 23)] [Float32 False 0] = qnan"
proof -
  let ?z = "Float32 False 0" and ?b = "Float32 False (191 * 2 ^ 23)"
  let ?inf = "Float32 False inf_bits"
  have z: "\<not> is_nan ?z" "\<not> is_inf ?z" "is_zero ?z" "is_finite ?z"
    and b: "\<not> is_nan ?b" "\<not> is_inf ?b" "\<not> is_zero ?b" "is_finite ?b"
    and i: "\<not> is_nan ?inf" "is_inf ?inf" "\<not> is_zero ?inf" "\<not> sign_bit ?inf"
    by (simp_all add: is_nan_def is_inf_def is_zero_def is_finite_def inf_bits_def)
  have m: "mag (mag_bits ?b) * mag (mag_bits ?z) = 0"
    by (simp add: mag_def)
  have bz: "f32_mul ?b ?z = ?z"
    unfolding f32_mul_def m using z b by simp
  have zz: "f32_mul ?z ?z = ?z"
    using z(4) by (simp add: f32_mul_zero_left)
  have az: "f32_add ?z ?z = ?z"
    by (rule f32_add_zero_zero)
  have sz: "f32_sqrt ?z = ?z"
    using z by (simp add: f32_sqrt_def)
  have bb: "f32_mul ?b ?b = ?inf"
    unfolding f32_mul_def float32.sel mag_two_pow_64 round_mag_overflow using b by simp
  have ai: "f32_add ?z ?inf = ?inf"
    using z i by (simp add: f32_add_def)
  have si: "f32_sqrt ?inf = ?inf"
    using i by (simp add: f32_sqrt_def)
  have iz: "f32_mul ?inf ?z = qnan"
    using z i by (simp add: f32_mul_def)
  have qe: "f32_add qnan (feps binary32) = qnan"
    by (simp add: f32_add_def)
  have dq: "f32_div ?z qnan = qnan"
    by (simp add: f32_div_def)
  show ?thesis
    unfolding calculate_resonance_singleton binary32_simps(1-2,4-11) bz zz az sz bb ai si iz qe dq ..
qed

lemma dot_binary32_one:
  "dot binary32 [Float32 False (127 * 2 ^ 23)] [Float32 False (127 * 2 ^ 23)] =
     Float32 False (127 * 2 ^ 23)"
proof -
  let ?one = "Float32 False (127 * 2 ^ 23)"
  have one: "is_finite ?one" "\<not> is_zero ?one" "\<not> is_nan ?one" "\<not> is_inf ?one"
    by (simp_all add: is_finite_def is_zero_def is_nan_def is_inf_def inf_bits_def)
  have "f32_mul ?one ?one = ?one"
    unfolding f32_mul_def float32.sel mag_one using one by (simp add: round_mag_one)
  moreover have "f32_add (Float32 False 0) ?one = ?one"
    by (rule f32_add_zero_left) (rule one)+
  ultimately show ?thesis
    by (simp add: dot_def)
qed

section \<open>The claims about resonance\<close>

text \<open>
  C1. For equal-length, non-empty vectors the single pass of \<open>calculate_resonance\<close>
  over the indices \<open>0..n-1\<close> returns the dot product divided by the product of the two
  norms plus \<open>1e-9\<close>: in any arithmetic of the element type (so in \<^verbatim>\<open>float\<close>, where each
  operation of the formula is rounded), and in exact arithmetic as the quotient of the
  sums.
\<close>

theorem resonance_formula:
  "(length a = length b \<and> a \<noteq> [] \<longrightarrow>
      calculate_resonance A a b =
        fdiv A (dot A a b) (fadd A (fmul A (vec_norm A a) (vec_norm A b)) (feps A))) \<and>
   (length u = length v \<and> u \<noteq> [] \<longrightarrow>
      calculate_resonance exact u v =
        (\<Sum>i<length u. u ! i * v ! i) /
          (sqrt (\<Sum>i<length u. (u ! i)\<^sup>2) * sqrt (\<Sum>i<length v. (v ! i)\<^sup>2) + 1 / 10 ^ 9))"
  using calculate_resonance_fold[of a b A] calculate_resonance_exact[of u v] by blast

theorem resonance_formula_witness:
  "calculate_resonance binary32 [Float32 False (127 * 2 ^ 23)] [Float32 False 0] =
     f32_div (dot binary32 [Float32 False (127 * 2 ^ 23)] [Float32 False 0])
       (f32_add
          (f32_mul (vec_norm binary32 [Float32 False (127 * 2 ^ 23)])
             (vec_norm binary32 [Float32 False 0]))
          (round32 (1 / 10 ^ 9))) \<and>
   calculate_resonance exact [1, 0] [1, 0] = 1 / (1 + 1 / 10 ^ 9)"
  using resonance_formula [where A = binary32 and a = "[Float32 False (127 * 2 ^ 23)]"
      and b = "[Float32 False 0]" and u = "[1, 0]" and v = "[1, 0]"]
  by (simp add: lessThan_Suc numeral_2_eq_2)

text \<open>
  C2. When the two vectors differ in length, or either is empty, \<open>calculate_resonance\<close>
  returns \<open>0.0f\<close>, whatever the arithmetic of the element type: the first statement of
  the function returns before any arithmetic or element access.
\<close>

theorem resonance_default:
  "length a \<noteq> length b \<or> a = [] \<or> b = [] \<Longrightarrow> calculate_resonance A a b = fzero A"
  by (auto simp: calculate_resonance_def)

theorem resonance_default_witness:
  "calculate_resonance exact [1, 2] [1, 2, 3] = 0 \<and> calculate_resonance exact [] [] = 0 \<and>
   calculate_resonance binary32 [] [Float32 False (127 * 2 ^ 23)] = Float32 False 0"
  using resonance_default [of "[1, 2]" "[1, 2, 3]" exact] resonance_default [of "[]" "[]" exact]
    resonance_default [of "[]" "[Float32 False (127 * 2 ^ 23)]" binary32]
  by simp

text \<open>
  C8, as amended. In exact arithmetic resonance is symmetric in its two arguments, for
  vectors of equal length. In \<^verbatim>\<open>float\<close> arithmetic, for vectors of equal length, the
  result is a NaN in one order exactly when it is a NaN in the other, and a result that
  is not a NaN is the same \<^verbatim>\<open>float\<close> in both orders and compares equal under \<^verbatim>\<open>==\<close>.
\<close>

theorem resonance_symmetric:
  "(length a = length b \<longrightarrow> calculate_resonance exact a b = calculate_resonance exact b a) \<and>
   (length c = length d \<longrightarrow>
      (is_nan (calculate_resonance binary32 c d) \<longleftrightarrow>
         is_nan (calculate_resonance binary32 d c)) \<and>
      (\<not> is_nan (calculate_resonance binary32 c d) \<longrightarrow>
         calculate_resonance binary32 c d = calculate_resonance binary32 d c \<and>
         f32_eq (calculate_resonance binary32 c d) (calculate_resonance binary32 d c)))"
proof (intro conjI impI)
  assume "length a = length b"
  then show "calculate_resonance exact a b = calculate_resonance exact b a"
    by (intro calculate_resonance_commute) (simp_all add: mult.commute)
next
  assume "length c = length d"
  then have eq: "calculate_resonance binary32 c d = calculate_resonance binary32 d c"
    by (intro calculate_resonance_commute) (simp_all add: f32_mul_commute)
  show "is_nan (calculate_resonance binary32 c d) \<longleftrightarrow> is_nan (calculate_resonance binary32 d c)"
    by (simp only: eq)
  assume "\<not> is_nan (calculate_resonance binary32 c d)"
  then show "calculate_resonance binary32 c d = calculate_resonance binary32 d c"
    and "f32_eq (calculate_resonance binary32 c d) (calculate_resonance binary32 d c)"
    by (simp_all add: eq[symmetric] f32_eq_def)
qed

theorem resonance_symmetric_witness:
  "calculate_resonance exact [1, 2] [3, 4] = calculate_resonance exact [3, 4] [1, 2] \<and>
   \<not> is_nan (calculate_resonance binary32 [Float32 False 0] [Float32 False (127 * 2 ^ 23)]) \<and>
   calculate_resonance binary32 [Float32 False 0] [Float32 False (127 * 2 ^ 23)] =
     calculate_resonance binary32 [Float32 False (127 * 2 ^ 23)] [Float32 False 0] \<and>
   f32_eq (calculate_resonance binary32 [Float32 False 0] [Float32 False (127 * 2 ^ 23)])
     (calculate_resonance binary32 [Float32 False (127 * 2 ^ 23)] [Float32 False 0])"
proof -
  have "is_finite (dot binary32 [Float32 False (127 * 2 ^ 23)] [Float32 False (127 * 2 ^ 23)])"
    unfolding dot_binary32_one by (simp add: is_finite_def inf_bits_def)
  then have "calculate_resonance binary32 [Float32 False 0] [Float32 False (127 * 2 ^ 23)] =
      Float32 False 0"
    using calculate_resonance_binary32_zero_vector [of "[Float32 False (127 * 2 ^ 23)]"] by simp
  then have "\<not> is_nan (calculate_resonance binary32 [Float32 False 0] [Float32 False (127 * 2 ^ 23)])"
    by (simp add: is_nan_def inf_bits_def)
  moreover have "length [1, 2 :: real] = length [3, 4 :: real]"
    "length [Float32 False 0] = length [Float32 False (127 * 2 ^ 23)]"
    by simp_all
  ultimately show ?thesis
    using resonance_symmetric [where a = "[1, 2]" and b = "[3, 4]" and c = "[Float32 False 0]"
        and d = "[Float32 False (127 * 2 ^ 23)]"]
    by blast
qed

text \<open>
  C8 as stated fails in \<^verbatim>\<open>float\<close> arithmetic: for the finite vectors \<open>a = [2^64]\<close> and
  \<open>b = [0]\<close> the squared norm of \<open>a\<close> overflows to infinity, the product of the norms is
  \<open>inf * 0\<close>, and the result is a NaN in both orders; the two results do not compare
  equal, a NaN being unequal to every \<^verbatim>\<open>float\<close>.
\<close>

theorem resonance_symmetric_counterexample:
  "length [Float32 False (191 * 2 ^ 23)] = length [Float32 False 0] \<and>
   is_finite (Float32 False (191 * 2 ^ 23)) \<and> is_finite (Float32 False 0) \<and>
   is_nan (calculate_resonance binary32 [Float32 False (191 * 2 ^ 23)] [Float32 False 0]) \<and>
   is_nan (calculate_resonance binary32 [Float32 False 0] [Float32 False (191 * 2 ^ 23)]) \<and>
   \<not> f32_eq (calculate_resonance binary32 [Float32 False (191 * 2 ^ 23)] [Float32 False 0])
     (calculate_resonance binary32 [Float32 False 0] [Float32 False (191 * 2 ^ 23)])"
proof -
  have "is_finite (Float32 False (191 * 2 ^ 23))" "is_finite (Float32 False 0)"
    by (simp_all add: is_finite_def inf_bits_def)
  moreover have "\<not> f32_eq qnan qnan"
    by (simp add: f32_eq_def)
  ultimately show ?thesis
    by (simp only: calculate_resonance_binary32_overflow
        calculate_resonance_binary32_overflow_swapped qnan_is_nan list.size simp_thms)
qed

text \<open>
  C9. Over exact real arithmetic the resonance of equal-length, non-empty vectors lies
  in \<open>[-1, 1]\<close>: by the Cauchy-Schwarz inequality the dot product is bounded by the
  product of the norms, and the positive \<open>1e-9\<close> only enlarges the denominator.
\<close>

theorem resonance_bounded:
  assumes "length a = length b" "a \<noteq> []"
  shows "- 1 \<le> calculate_resonance exact a b \<and> calculate_resonance exact a b \<le> 1"
proof -
  let ?d = "\<Sum>i<length a. a ! i * b ! i"
  let ?m = "sqrt (\<Sum>i<length a. (a ! i)\<^sup>2) * sqrt (\<Sum>i<length b. (b ! i)\<^sup>2)"
  have r: "calculate_resonance exact a b = ?d / (?m + 1 / 10 ^ 9)"
    using assms by (rule calculate_resonance_exact)
  have "\<bar>?d\<bar> \<le> ?m"
    unfolding assms(1)[symmetric] by (rule cauchy_schwarz_sum)
  moreover have "0 \<le> ?m"
    by (simp add: sum_nonneg)
  ultimately have le: "\<bar>?d\<bar> \<le> ?m + 1 / 10 ^ 9" and pos: "0 < ?m + 1 / 10 ^ 9"
    by simp_all
  have "\<bar>?d / (?m + 1 / 10 ^ 9)\<bar> = \<bar>?d\<bar> / (?m + 1 / 10 ^ 9)"
    using pos by (simp only: abs_divide abs_of_pos)
  also have "\<dots> \<le> 1"
    using le pos by (simp only: divide_le_eq_1_pos)
  finally have "\<bar>?d / (?m + 1 / 10 ^ 9)\<bar> \<le> 1" .
  then show ?thesis
    unfolding r by linarith
qed

theorem resonance_bounded_witness:
  "- 1 \<le> calculate_resonance exact [1, 0] [- 1, 0] \<and>
   calculate_resonance exact [1, 0] [- 1, 0] \<le> 1"
  using resonance_bounded [of "[1, 0]" "[- 1, 0]"] by simp

text \<open>
  C10, as amended. For a non-empty vector \<open>b\<close> and the zero vector of the same length:
  in exact arithmetic the dot product is \<open>0\<close>, the denominator is strictly positive and
  \<open>calculate_resonance\<close> returns \<open>0\<close>; in \<^verbatim>\<open>float\<close> arithmetic it returns \<open>+0.0\<close> whenever
  the accumulated squared norm of \<open>b\<close> is finite (no component of \<open>b\<close> is a NaN or an
  infinity and the sum of the squares does not overflow).
\<close>

theorem resonance_zero_vector:
  "(b \<noteq> [] \<longrightarrow>
      dot exact (replicate (length b) 0) b = 0 \<and>
      0 < vec_norm exact (replicate (length b) 0) * vec_norm exact b + 1 / 10 ^ 9 \<and>
      calculate_resonance exact (replicate (length b) 0) b = 0) \<and>
   (c \<noteq> [] \<and> is_finite (dot binary32 c c) \<longrightarrow>
      calculate_resonance binary32 (replicate (length c) (Float32 False 0)) c = Float32 False 0)"
proof (intro conjI impI)
  assume b: "b \<noteq> []"
  show "dot exact (replicate (length b) 0) b = 0"
    by (simp add: dot_exact)
  show "0 < vec_norm exact (replicate (length b) 0) * vec_norm exact b + 1 / 10 ^ 9"
    by (simp add: vec_norm_exact)
  show "calculate_resonance exact (replicate (length b) 0) b = 0"
    using b by (simp add: calculate_resonance_exact)
next
  assume "c \<noteq> [] \<and> is_finite (dot binary32 c c)"
  then show "calculate_resonance binary32 (replicate (length c) (Float32 False 0)) c = Float32 False 0"
    by (intro calculate_resonance_binary32_zero_vector) simp_all
qed

theorem resonance_zero_vector_witness:
  "calculate_resonance exact [0, 0] [3, 4] = 0 \<and>
   calculate_resonance binary32 [Float32 False 0] [Float32 False (127 * 2 ^ 23)] = Float32 False 0"
proof -
  have "is_finite (dot binary32 [Float32 False (127 * 2 ^ 23)] [Float32 False (127 * 2 ^ 23)])"
    unfolding dot_binary32_one by (simp add: is_finite_def inf_bits_def)
  then show ?thesis
    using resonance_zero_vector [where b = "[3, 4]" and c = "[Float32 False (127 * 2 ^ 23)]"]
    by (simp add: numeral_2_eq_2)
qed

text \<open>
  C10 as stated fails in \<^verbatim>\<open>float\<close> arithmetic: for \<open>b = [2^64]\<close> (bits \<open>0x5F800000\<close>, a
  finite value) the square overflows to infinity, the product of the norms is
  \<open>0 * inf\<close>, and the result is a NaN, not \<open>0.0\<close>.
\<close>

theorem resonance_zero_vector_counterexample:
  "is_finite (Float32 False (191 * 2 ^ 23)) \<and> valof (Float32 False (191 * 2 ^ 23)) = 2 ^ 64 \<and>
   is_nan (calculate_resonance binary32 (replicate (length [Float32 False (191 * 2 ^ 23)])
     (Float32 False 0)) [Float32 False (191 * 2 ^ 23)]) \<and>
   calculate_resonance binary32 [Float32 False 0] [Float32 False (191 * 2 ^ 23)] \<noteq> Float32 False 0"
proof -
  have "is_finite (Float32 False (191 * 2 ^ 23))"
    by (simp add: is_finite_def inf_bits_def)
  moreover have "valof (Float32 False (191 * 2 ^ 23)) = 2 ^ 64"
    unfolding valof_def float32.sel mag_two_pow_64 by simp
  moreover have "replicate (length [Float32 False (191 * 2 ^ 23)]) (Float32 False 0) = [Float32 False 0]"
    by simp
  moreover have "qnan \<noteq> Float32 False 0"
    by (simp add: qnan_def inf_bits_def)
  ultimately show ?thesis
    by (simp only: calculate_resonance_binary32_overflow qnan_is_nan simp_thms)
qed

text \<open>
  C3. The boundary entry point does not return the default on arrays of different
  lengths. It builds both vectors with the length of the first array: a shorter second
  array is read past its end, and a longer one is cut to the length of the first, so
  that \<open>calculate_resonance\<close> always receives vectors of equal length.
\<close>

theorem boundary_mismatched_lengths:
  "operator7Resonance exact [1, 2] [1] = Inl OutOfRange \<and>
   operator7Resonance binary32 [Float32 False 0, Float32 False 0] [Float32 False 0] =
     Inl OutOfRange \<and>
   operator7Resonance exact [1, 0] [1, 0, 7] = Inr (1 / (1 + 1 / 10 ^ 9)) \<and>
   1 / (1 + 1 / 10 ^ 9) \<noteq> (0 :: real)"
  by (simp add: operator7Resonance_def vector_from_range_def calculate_resonance_exact
      lessThan_Suc numeral_2_eq_2)

section \<open>The claims about coherence\<close>

text \<open>
  C4. \<open>calculate_coherence\<close> returns the mean of the absolute values of the
  components, capped at \<open>1\<close> by \<^verbatim>\<open>std::min\<close>, and \<open>0\<close> for the empty vector: in any
  arithmetic of the element type, and in exact arithmetic as \<open>min 1\<close> of the quotient
  of the sum by the length.
\<close>

theorem coherence_formula:
  "calculate_coherence A w = (if w = [] then fzero A else std_min A (fone A) (mean_abs A w)) \<and>
   calculate_coherence exact v =
     (if v = [] then 0 else min 1 ((\<Sum>x\<leftarrow>v. \<bar>x\<bar>) / real (length v)))"
  by (simp add: calculate_coherence_fold mean_abs_exact std_min_def min_def)

theorem coherence_formula_witness:
  "calculate_coherence binary32 [] = Float32 False 0 \<and>
   calculate_coherence exact [2, 2, 2] = 1 \<and> calculate_coherence exact [] = 0"
  using coherence_formula [where A = binary32 and w = "[]" and v = "[2, 2, 2]"]
    coherence_formula [where A = exact and w = "[]" and v = "[]"]
  by simp

text \<open>
  C5. The value of \<open>calculate_coherence\<close> lies in \<open>[0, 1]\<close> for every vector, empty or
  not: in exact arithmetic, and in \<^verbatim>\<open>float\<close> arithmetic for every input, NaNs and
  infinities included (the result is then never a NaN).
\<close>

theorem coherence_range:
  "(0 \<le> calculate_coherence exact v \<and> calculate_coherence exact v \<le> 1) \<and>
   \<not> is_nan (calculate_coherence binary32 w) \<and>
   0 \<le> valof (calculate_coherence binary32 w) \<and> valof (calculate_coherence binary32 w) \<le> 1"
proof -
  have "0 \<le> calculate_coherence exact v \<and> calculate_coherence exact v \<le> 1"
    by (simp add: calculate_coherence_fold mean_abs_exact std_min_def sum_list_abs_nonneg)
  then show ?thesis
    using calculate_coherence_binary32_range[of w] by blast
qed

theorem coherence_range_witness:
  "0 \<le> calculate_coherence exact [1 / 10, - 2 / 10, 3 / 10] \<and>
   calculate_coherence exact [1 / 10, - 2 / 10, 3 / 10] \<le> 1 \<and>
   \<not> is_nan (calculate_coherence binary32 [Float32 True (128 * 2 ^ 23), qnan]) \<and>
   0 \<le> valof (calculate_coherence binary32 [Float32 True (128 * 2 ^ 23), qnan]) \<and>
   valof (calculate_coherence binary32 [Float32 True (128 * 2 ^ 23), qnan]) \<le> 1"
  using coherence_range [where v = "[1 / 10, - 2 / 10, 3 / 10]"
      and w = "[Float32 True (128 * 2 ^ 23), qnan]"]
  by blast

section \<open>The claims about stability\<close>

text \<open>
  C6. For a history of at least two values \<open>calculate_delta_i\<close> returns one minus the
  mean of the absolute successive differences; for a shorter history it returns \<open>1\<close>:
  in any arithmetic of the element type, and in exact arithmetic with the sum over
  \<open>i = 1..n-1\<close> divided by \<open>n - 1\<close>.
\<close>

theorem delta_i_formula:
  "calculate_delta_i A g =
     (if length g < 2 then fone A else fsub A (fone A) (mean_abs_diff A g)) \<and>
   (2 \<le> length h \<longrightarrow>
      calculate_delta_i exact h =
        1 - (\<Sum>i = 1..<length h. \<bar>h ! i - h ! (i - 1)\<bar>) / real (length h - 1)) \<and>
   (length h < 2 \<longrightarrow> calculate_delta_i exact h = 1)"
  by (simp add: calculate_delta_i_fold mean_abs_diff_exact)

theorem delta_i_formula_witness:
  "calculate_delta_i binary32 [] = Float32 False (127 * 2 ^ 23) \<and>
   calculate_delta_i exact [1, 0] = 0 \<and> calculate_delta_i exact [7] = 1"
  using delta_i_formula [where A = binary32 and g = "[]" and h = "[1, 0]"]
    delta_i_formula [where A = exact and g = "[]" and h = "[7]"]
  by simp

text \<open>
  C7, as amended. In exact arithmetic the result of \<open>calculate_delta_i\<close> is at most
  \<open>1\<close>, it is \<open>1\<close> exactly when the history has fewer than two values or all successive
  differences are zero, and some history gives a result below \<open>0\<close> (\<open>[1, -1]\<close> gives
  \<open>-1\<close>). In \<^verbatim>\<open>float\<close> arithmetic the result is at most \<open>1\<close> whenever it is not a NaN, it
  is \<open>1.0\<close> when the history has fewer than two values or its values are finite and
  every successive difference is zero, and some history gives a result below \<open>0\<close>.
\<close>

theorem delta_i_upper_bound:
  "(calculate_delta_i exact h \<le> 1 \<and>
    (calculate_delta_i exact h = 1 \<longleftrightarrow>
       length h < 2 \<or> (\<forall>i. 1 \<le> i \<and> i < length h \<longrightarrow> h ! i = h ! (i - 1))) \<and>
    (\<exists>h'. calculate_delta_i exact h' < 0)) \<and>
   ((\<not> is_nan (calculate_delta_i binary32 g) \<longrightarrow> valof (calculate_delta_i binary32 g) \<le> 1) \<and>
    (length g < 2 \<or>
       ((\<forall>x\<in>set g. is_finite x) \<and>
        (\<forall>i. 1 \<le> i \<and> i < length g \<longrightarrow> valof (g ! i) = valof (g ! (i - 1)))) \<longrightarrow>
       calculate_delta_i binary32 g = Float32 False (127 * 2 ^ 23)) \<and>
    (\<exists>g'. \<not> is_nan (calculate_delta_i binary32 g') \<and> valof (calculate_delta_i binary32 g') < 0))"
proof (intro conjI)
  show "calculate_delta_i exact h \<le> 1"
    by (simp add: calculate_delta_i_fold mean_abs_diff_exact delta_sum_nonneg)
  show "calculate_delta_i exact h = 1 \<longleftrightarrow>
      length h < 2 \<or> (\<forall>i. 1 \<le> i \<and> i < length h \<longrightarrow> h ! i = h ! (i - 1))"
  proof (cases "length h < 2")
    case True
    then show ?thesis
      by (simp add: calculate_delta_i_fold)
  next
    case False
    then have "calculate_delta_i exact h = 1 \<longleftrightarrow>
        (\<Sum>k = 1..<length h. \<bar>h ! k - h ! (k - 1)\<bar>) = 0"
      by (simp add: calculate_delta_i_fold mean_abs_diff_exact)
    with False show ?thesis
      by (simp only: delta_sum_zero_iff) simp
  qed
  have "calculate_delta_i exact [1, - 1] < 0"
    by (simp add: calculate_delta_i_fold mean_abs_diff_exact)
  then show "\<exists>h'. calculate_delta_i exact h' < 0" ..
  show "\<not> is_nan (calculate_delta_i binary32 g) \<longrightarrow> valof (calculate_delta_i binary32 g) \<le> 1"
    by (simp add: calculate_delta_i_binary32_le_one)
  show "length g < 2 \<or>
       ((\<forall>x\<in>set g. is_finite x) \<and>
        (\<forall>i. 1 \<le> i \<and> i < length g \<longrightarrow> valof (g ! i) = valof (g ! (i - 1)))) \<longrightarrow>
       calculate_delta_i binary32 g = Float32 False (127 * 2 ^ 23)"
    by (rule impI) (rule calculate_delta_i_binary32_constant)
  have "\<not> is_nan (Float32 True (127 * 2 ^ 23))" "valof (Float32 True (127 * 2 ^ 23)) < 0"
    unfolding valof_def float32.sel mag_one by (simp_all add: is_nan_def inf_bits_def)
  then have "\<not> is_nan
        (calculate_delta_i binary32 [Float32 False (127 * 2 ^ 23), Float32 True (127 * 2 ^ 23)]) \<and>
      valof (calculate_delta_i binary32 [Float32 False (127 * 2 ^ 23), Float32 True (127 * 2 ^ 23)])
        < 0"
    by (simp only: calculate_delta_i_binary32_negative simp_thms)
  then show "\<exists>g'. \<not> is_nan (calculate_delta_i binary32 g') \<and> valof (calculate_delta_i binary32 g') < 0" ..
qed

theorem delta_i_upper_bound_witness:
  "calculate_delta_i exact [1 / 2, 1 / 2, 1 / 2] = 1 \<and>
   calculate_delta_i binary32
     [Float32 False (126 * 2 ^ 23), Float32 False (126 * 2 ^ 23), Float32 False (126 * 2 ^ 23)] =
     Float32 False (127 * 2 ^ 23)"
proof -
  let ?g = "[Float32 False (126 * 2 ^ 23), Float32 False (126 * 2 ^ 23), Float32 False (126 * 2 ^ 23)]"
  have "\<forall>x\<in>set ?g. is_finite x"
    by (simp add: is_finite_def inf_bits_def)
  moreover have "\<forall>i. 1 \<le> i \<and> i < length ?g \<longrightarrow> valof (?g ! i) = valof (?g ! (i - 1))"
    by (simp add: nth_Cons')
  ultimately show ?thesis
    using delta_i_upper_bound [where h = "[1 / 2, 1 / 2, 1 / 2]" and g = ?g]
    by (simp add: nth_Cons')
qed

text \<open>
  C7 as stated fails in \<^verbatim>\<open>float\<close> arithmetic: the history \<open>[0, 2^-30]\<close> has a non-zero
  successive difference, which the subtraction from \<open>1.0f\<close> rounds away, and the result
  is exactly \<open>1.0\<close>; and a history that holds a NaN gives a NaN, which is not at most
  \<open>1.0\<close>.
\<close>

theorem delta_i_upper_bound_counterexample:
  "calculate_delta_i binary32 [Float32 False 0, Float32 False (97 * 2 ^ 23)] =
     Float32 False (127 * 2 ^ 23) \<and>
   f32_sub (Float32 False (97 * 2 ^ 23)) (Float32 False 0) = Float32 False (97 * 2 ^ 23) \<and>
   valof (Float32 False (97 * 2 ^ 23)) = 1 / 2 ^ 30 \<and>
   \<not> is_zero (Float32 False (97 * 2 ^ 23)) \<and>
   is_nan (calculate_delta_i binary32 [qnan, Float32 False 0])"
proof -
  have "f32_sub (Float32 False (97 * 2 ^ 23)) (Float32 False 0) = Float32 False (97 * 2 ^ 23)"
    by (rule f32_sub_zero_right) (simp_all add: is_finite_def is_zero_def inf_bits_def)
  moreover have "valof (Float32 False (97 * 2 ^ 23)) = 1 / 2 ^ 30"
    unfolding valof_def float32.sel mag_two_pow_minus_30 by simp
  moreover have "\<not> is_zero (Float32 False (97 * 2 ^ 23))"
    by (simp add: is_zero_def)
  ultimately show ?thesis
    using calculate_delta_i_binary32_absorbed calculate_delta_i_binary32_nan by blast
qed

end
